theory Spec2Isabelle
  imports Complex_Main
begin

section \<open>Decoded JSON data\<close>

text \<open>
  The script handles the values that \<^verbatim>\<open>resp.json()\<close> and \<^verbatim>\<open>json.load\<close> return:
  \<^verbatim>\<open>None\<close>, booleans, integers, strings, lists and dictionaries with string keys.
  A dictionary is an association list in insertion order. Floating-point numbers are
  not part of the model. Texts (Python \<^verbatim>\<open>str\<close>, and the content of the output file,
  which is written and read back as UTF-8) are lists of characters.
\<close>

datatype json =
    JNull
  | JBool bool
  | JInt int
  | JStr string
  | JArr "json list"
  | JObj "(string \<times> json) list"

text \<open>Python truthiness, as used by \<^verbatim>\<open>if not next_link\<close>.\<close>

fun truthy :: "json \<Rightarrow> bool" where
  "truthy JNull = False"
| "truthy (JBool b) = b"
| "truthy (JInt i) = (i \<noteq> 0)"
| "truthy (JStr s) = (s \<noteq> [])"
| "truthy (JArr xs) = (xs \<noteq> [])"
| "truthy (JObj kvs) = (kvs \<noteq> [])"

text \<open>\<^verbatim>\<open>d.get(key)\<close> and \<^verbatim>\<open>d.get(key, default)\<close> on a dictionary.\<close>

definition dict_get :: "(string \<times> json) list \<Rightarrow> string \<Rightarrow> json option" where
  "dict_get d k = map_of d k"

definition dict_get_default :: "(string \<times> json) list \<Rightarrow> string \<Rightarrow> json \<Rightarrow> json" where
  "dict_get_default d k dflt = (case map_of d k of None \<Rightarrow> dflt | Some v \<Rightarrow> v)"

text \<open>\<^verbatim>\<open>d[k] = v\<close>: an existing key keeps its position, a new key goes last.\<close>

fun dict_set :: "(string \<times> json) list \<Rightarrow> string \<times> json \<Rightarrow> (string \<times> json) list" where
  "dict_set [] kv = [kv]"
| "dict_set (p # ps) kv = (if fst p = fst kv then kv # ps else p # dict_set ps kv)"

text \<open>A decoded value is well formed when no dictionary in it repeats a key.\<close>

fun wf_json :: "json \<Rightarrow> bool" where
  "wf_json (JArr xs) = list_all wf_json xs"
| "wf_json (JObj kvs) = (distinct (map fst kvs) \<and> list_all (\<lambda>kv. wf_json (snd kv)) kvs)"
| "wf_json _ = True"

section \<open>Characters and numerals\<close>

definition quote_chr :: char where
  "quote_chr = CHR 0x22"

definition backslash_chr :: char where
  "backslash_chr = CHR 0x5C"

definition digit_chars :: string where
  "digit_chars = ''0123456789''"

definition hex_chars :: string where
  "hex_chars = ''0123456789abcdef''"

definition is_digit :: "char \<Rightarrow> bool" where
  "is_digit c = (c \<in> set digit_chars)"

fun index_of :: "char \<Rightarrow> string \<Rightarrow> nat" where
  "index_of c [] = 0"
| "index_of c (d # ds) = (if c = d then 0 else Suc (index_of c ds))"

definition digit_val :: "char \<Rightarrow> nat" where
  "digit_val c = index_of c digit_chars"

text \<open>Hexadecimal digits are read in either case, as \<^verbatim>\<open>int(esc, 16)\<close> does.\<close>

definition hex_val :: "char \<Rightarrow> nat option" where
  "hex_val c =
     (if c \<in> set hex_chars then Some (index_of c hex_chars)
      else if c \<in> set ''ABCDEF'' then Some (10 + index_of c ''ABCDEF'')
      else None)"

text \<open>\<^verbatim>\<open>str(n)\<close> for a natural number and for an integer.\<close>

fun digits_of_nat :: "nat \<Rightarrow> string" where
  "digits_of_nat n =
     (if n < 10 then [digit_chars ! n]
      else digits_of_nat (n div 10) @ [digit_chars ! (n mod 10)])"

definition str_of_int :: "int \<Rightarrow> string" where
  "str_of_int i = (if i < 0 then CHR ''-'' # digits_of_nat (nat (- i)) else digits_of_nat (nat i))"

definition nat_of_digits :: "string \<Rightarrow> nat" where
  "nat_of_digits ds = foldl (\<lambda>a c. 10 * a + digit_val c) 0 ds"

section \<open>The compact serializer\<close>

text \<open>
  \<^verbatim>\<open>dumps_bytes\<close> as it is defined when \<^verbatim>\<open>orjson\<close> is not installed (source lines 24
  to 25): \<^verbatim>\<open>json.dumps(obj, ensure_ascii=False, separators=(',', ':'))\<close>. There is no
  whitespace between tokens; in strings the quote, the backslash and the control
  characters below 0x20 are escaped and every other character is written as it is.
\<close>

definition escape_char :: "char \<Rightarrow> string" where
  "escape_char c =
     (if c = quote_chr then [backslash_chr, quote_chr]
      else if c = backslash_chr then [backslash_chr, backslash_chr]
      else if c = CHR 0x0A then [backslash_chr, CHR ''n'']
      else if c = CHR 0x0D then [backslash_chr, CHR ''r'']
      else if c = CHR 0x09 then [backslash_chr, CHR ''t'']
      else if c = CHR 0x08 then [backslash_chr, CHR ''b'']
      else if c = CHR 0x0C then [backslash_chr, CHR ''f'']
      else if of_char c < (32::nat) then
        [backslash_chr, CHR ''u'', CHR ''0'', CHR ''0'',
         hex_chars ! (of_char c div 16), hex_chars ! (of_char c mod 16)]
      else [c])"

definition encode_string :: "string \<Rightarrow> string" where
  "encode_string s = quote_chr # concat (map escape_char s) @ [quote_chr]"

fun join :: "string \<Rightarrow> string list \<Rightarrow> string" where
  "join sep [] = []"
| "join sep [x] = x"
| "join sep (x # y # ys) = x @ sep @ join sep (y # ys)"

fun dumps_bytes :: "json \<Rightarrow> string" where
  "dumps_bytes JNull = ''null''"
| "dumps_bytes (JBool b) = (if b then ''true'' else ''false'')"
| "dumps_bytes (JInt i) = str_of_int i"
| "dumps_bytes (JStr s) = encode_string s"
| "dumps_bytes (JArr xs) = ''['' @ join '','' (map dumps_bytes xs) @ '']''"
| "dumps_bytes (JObj kvs) =
     ''{'' @ join '','' (map (\<lambda>kv. encode_string (fst kv) @ '':'' @ dumps_bytes (snd kv)) kvs) @ ''}''"

section \<open>The indenting serializer\<close>

text \<open>
  \<^verbatim>\<open>json.dump(data, f, ensure_ascii=False, indent=2)\<close> of the reformat step (source
  line 160): every element and member on a line of its own, two spaces per level,
  \<^verbatim>\<open>[]\<close> and \<^verbatim>\<open>{}\<close> for the empty containers.
\<close>

definition newline_indent :: "nat \<Rightarrow> string" where
  "newline_indent level = CHR 0x0A # replicate (2 * level) CHR '' ''"

fun dump_indent :: "nat \<Rightarrow> json \<Rightarrow> string" where
  "dump_indent level (JArr xs) =
     (if xs = [] then ''[]''
      else ''['' @ newline_indent (Suc level)
        @ join ('','' @ newline_indent (Suc level)) (map (dump_indent (Suc level)) xs)
        @ newline_indent level @ '']'')"
| "dump_indent level (JObj kvs) =
     (if kvs = [] then ''{}''
      else ''{'' @ newline_indent (Suc level)
        @ join ('','' @ newline_indent (Suc level))
            (map (\<lambda>kv. encode_string (fst kv) @ '': '' @ dump_indent (Suc level) (snd kv)) kvs)
        @ newline_indent level @ ''}'')"
| "dump_indent level v = dumps_bytes v"

section \<open>The JSON reader\<close>

text \<open>
  \<^verbatim>\<open>json.load\<close> of the reformat step (source line 158), as a recursive-descent reader
  over the text. The fuel bounds the nesting of recursive calls; \<open>json_loads\<close> starts
  with the length of the text, which is never exhausted since every call consumes a
  character. The reader returns \<open>None\<close> where \<^verbatim>\<open>json.load\<close> raises, and also on the
  texts outside the model (a number with a fraction or an exponent, an escape
  \<^verbatim>\<open>\uXXXX\<close> of a character from 256 up).
\<close>

definition json_ws :: "char \<Rightarrow> bool" where
  "json_ws c = (c = CHR '' '' \<or> c = CHR 0x09 \<or> c = CHR 0x0A \<or> c = CHR 0x0D)"

definition skip_ws :: "string \<Rightarrow> string" where
  "skip_ws s = dropWhile json_ws s"

definition starts_with :: "char \<Rightarrow> string \<Rightarrow> bool" where
  "starts_with c s = (case s of [] \<Rightarrow> False | d # _ \<Rightarrow> d = c)"

definition strip_prefix :: "string \<Rightarrow> string \<Rightarrow> string option" where
  "strip_prefix p s = (if take (length p) s = p then Some (drop (length p) s) else None)"

definition unescape :: "char \<Rightarrow> char option" where
  "unescape e =
     (if e = quote_chr then Some quote_chr
      else if e = backslash_chr then Some backslash_chr
      else if e = CHR ''/'' then Some CHR ''/''
      else if e = CHR ''b'' then Some (CHR 0x08)
      else if e = CHR ''f'' then Some (CHR 0x0C)
      else if e = CHR ''n'' then Some (CHR 0x0A)
      else if e = CHR ''r'' then Some (CHR 0x0D)
      else if e = CHR ''t'' then Some (CHR 0x09)
      else None)"

definition hex4 :: "char \<Rightarrow> char \<Rightarrow> char \<Rightarrow> char \<Rightarrow> nat option" where
  "hex4 a b c d =
     (case (hex_val a, hex_val b, hex_val c, hex_val d) of
        (Some w, Some x, Some y, Some z) \<Rightarrow> Some (((w * 16 + x) * 16 + y) * 16 + z)
      | _ \<Rightarrow> None)"

text \<open>The text after an opening quote, up to and including the closing quote.\<close>

fun scanstring :: "string \<Rightarrow> (string \<times> string) option" where
  "scanstring [] = None"
| "scanstring (c # cs) =
     (if c = quote_chr then Some ([], cs)
      else if c = backslash_chr then
        (case cs of
           [] \<Rightarrow> None
         | e # r \<Rightarrow>
             if e = CHR ''u'' then
               (case r of
                  h1 # h2 # h3 # h4 # r' \<Rightarrow>
                    (case hex4 h1 h2 h3 h4 of
                       None \<Rightarrow> None
                     | Some n \<Rightarrow>
                         if n < 256 then
                           (case scanstring r' of
                              None \<Rightarrow> None
                            | Some (s, t) \<Rightarrow> Some (char_of n # s, t))
                         else None)
                | _ \<Rightarrow> None)
             else
               (case unescape e of
                  None \<Rightarrow> None
                | Some d \<Rightarrow>
                    (case scanstring r of
                       None \<Rightarrow> None
                     | Some (s, t) \<Rightarrow> Some (d # s, t))))
      else if of_char c < (32::nat) then None
      else
        (case scanstring cs of
           None \<Rightarrow> None
         | Some (s, t) \<Rightarrow> Some (c # s, t)))"

text \<open>
  An integer literal \<^verbatim>\<open>-?(0|[1-9][0-9]*)\<close>; a fraction or an exponent after it makes
  the number a float, which the model does not read.
\<close>

definition scan_int :: "string \<Rightarrow> (int \<times> string) option" where
  "scan_int s =
     (let neg = starts_with CHR ''-'' s;
          t = (if neg then tl s else s);
          ds = (if starts_with CHR ''0'' t then ''0'' else takeWhile is_digit t);
          r = drop (length ds) t
      in if ds = [] \<or> starts_with CHR ''.'' r \<or> starts_with CHR ''e'' r \<or> starts_with CHR ''E'' r
         then None
         else Some ((if neg then - int (nat_of_digits ds) else int (nat_of_digits ds)), r))"

fun parse_value :: "nat \<Rightarrow> string \<Rightarrow> (json \<times> string) option"
  and parse_elems :: "nat \<Rightarrow> string \<Rightarrow> (json list \<times> string) option"
  and parse_members :: "nat \<Rightarrow> string \<Rightarrow> ((string \<times> json) list \<times> string) option"
where
  "parse_value 0 s = None"
| "parse_value (Suc n) s =
     (if starts_with quote_chr s then
        (case scanstring (tl s) of
           None \<Rightarrow> None
         | Some (t, r) \<Rightarrow> Some (JStr t, r))
      else if starts_with CHR ''['' s then
        (if starts_with CHR '']'' (skip_ws (tl s)) then Some (JArr [], tl (skip_ws (tl s)))
         else
           (case parse_elems n (skip_ws (tl s)) of
              None \<Rightarrow> None
            | Some (xs, r) \<Rightarrow> Some (JArr xs, r)))
      else if starts_with CHR ''{'' s then
        (if starts_with CHR ''}'' (skip_ws (tl s)) then Some (JObj [], tl (skip_ws (tl s)))
         else
           (case parse_members n (skip_ws (tl s)) of
              None \<Rightarrow> None
            | Some (kvs, r) \<Rightarrow> Some (JObj (foldl dict_set [] kvs), r)))
      else
        (case strip_prefix ''null'' s of
           Some r \<Rightarrow> Some (JNull, r)
         | None \<Rightarrow>
        (case strip_prefix ''true'' s of
           Some r \<Rightarrow> Some (JBool True, r)
         | None \<Rightarrow>
        (case strip_prefix ''false'' s of
           Some r \<Rightarrow> Some (JBool False, r)
         | None \<Rightarrow>
        (case scan_int s of
           Some (i, r) \<Rightarrow> Some (JInt i, r)
         | None \<Rightarrow> None)))))"
| "parse_elems 0 s = None"
| "parse_elems (Suc n) s =
     (case parse_value n s of
        None \<Rightarrow> None
      | Some (v, r) \<Rightarrow>
          if starts_with CHR '']'' (skip_ws r) then Some ([v], tl (skip_ws r))
          else if starts_with CHR '','' (skip_ws r) then
            (case parse_elems n (skip_ws (tl (skip_ws r))) of
               None \<Rightarrow> None
             | Some (vs, r') \<Rightarrow> Some (v # vs, r'))
          else None)"
| "parse_members 0 s = None"
| "parse_members (Suc n) s =
     (if \<not> starts_with quote_chr s then None
      else
        (case scanstring (tl s) of
           None \<Rightarrow> None
         | Some (k, r) \<Rightarrow>
             if \<not> starts_with CHR '':'' (skip_ws r) then None
             else
               (case parse_value n (skip_ws (tl (skip_ws r))) of
                  None \<Rightarrow> None
                | Some (v, r1) \<Rightarrow>
                    if starts_with CHR ''}'' (skip_ws r1) then Some ([(k, v)], tl (skip_ws r1))
                    else if starts_with CHR '','' (skip_ws r1) then
                      (case parse_members n (skip_ws (tl (skip_ws r1))) of
                         None \<Rightarrow> None
                       | Some (kvs, r2) \<Rightarrow> Some ((k, v) # kvs, r2))
                    else None)))"

definition json_loads :: "string \<Rightarrow> json option" where
  "json_loads s =
     (case parse_value (length s) (skip_ws s) of
        None \<Rightarrow> None
      | Some (v, r) \<Rightarrow> if skip_ws r = [] then Some v else None)"

section \<open>Configuration, exceptions and the outside world\<close>

text \<open>
  A Python \<^verbatim>\<open>float\<close>: a finite value, taken as the exact rational it stands for, an
  infinity, or not a number.
\<close>

datatype pyfloat = Finite rat | PosInf | NegInf | NaN

text \<open>
  What the run takes from the platform and not from the environment variables:
  \<open>now_local\<close> is the formatted timestamp of line 108; \<open>float_of\<close> is the library's
  \<^verbatim>\<open>float\<close> on a non-empty text (\<open>None\<close> where it raises \<^verbatim>\<open>ValueError\<close>); \<open>sleep_max\<close>
  is the longest duration that the operating system accepts from \<^verbatim>\<open>time.sleep\<close>;
  \<open>fault\<close> says which step of the reformat, if any, the operating system lets fail.
\<close>

datatype reformat_fault = NoFault | LoadFails | OpenForWriteFails | DumpFailsAfter nat

record platform =
  now_local :: string
  float_of :: "string \<Rightarrow> pyfloat option"
  sleep_max :: rat
  fault :: reformat_fault

text \<open>
  The module-level configuration (source lines 27 to 36) as the functions use it:
  \<open>PAGE_SIZE\<close> and \<open>LOG_EVERY\<close> after their conversion by \<^verbatim>\<open>int\<close>, the two string
  variables as \<^verbatim>\<open>os.getenv\<close> returns them.
\<close>

record env = platform +
  TM_API_TOKEN :: "string option"
  PAGE_SIZE :: int
  LOG_EVERY :: int
  COMPACT_OUTPUT_var :: "string option"

definition BASE_URL :: string where
  "BASE_URL = ''https://api.xdr.trendmicro.com/v3.0/asrm/vulnerableDevices''"

definition TOKEN :: "env \<Rightarrow> string" where
  "TOKEN e =
     (case TM_API_TOKEN e of
        None \<Rightarrow> ''<API key here>''
      | Some t \<Rightarrow> if t = [] then ''<API key here>'' else t)"

definition MAX_RETRIES :: nat where
  "MAX_RETRIES = 5"

definition BACKOFF_BASE :: rat where
  "BACKOFF_BASE = 3 / 2"

text \<open>\<^verbatim>\<open>str.lower()\<close> on the ASCII letters, which decide the comparisons made with it.\<close>

definition lower_chr :: "char \<Rightarrow> char" where
  "lower_chr c =
     (if (65::nat) \<le> of_char c \<and> of_char c \<le> (90::nat) then char_of (of_char c + (32::nat)) else c)"

definition COMPACT_OUTPUT :: "env \<Rightarrow> bool" where
  "COMPACT_OUTPUT e =
     (map lower_chr (case COMPACT_OUTPUT_var e of None \<Rightarrow> ''true'' | Some v \<Rightarrow> v) = ''true'')"

text \<open>
  The exceptions the script meets. \<open>HTTPError\<close> and \<open>JSONDecodeError\<close> are subclasses
  of \<^verbatim>\<open>requests.RequestException\<close>; \<open>SystemExit\<close> and \<open>KeyboardInterrupt\<close> are the
  ones that are not an \<^verbatim>\<open>Exception\<close>.
\<close>

datatype exn =
    RequestException
  | HTTPError int
  | JSONDecodeError
  | AttributeError
  | TypeError
  | ValueError
  | OverflowError
  | OSError
  | ZeroDivisionError
  | KeyboardInterrupt
  | SystemExit int

fun is_RequestException :: "exn \<Rightarrow> bool" where
  "is_RequestException RequestException = True"
| "is_RequestException (HTTPError _) = True"
| "is_RequestException JSONDecodeError = True"
| "is_RequestException _ = False"

fun is_Exception :: "exn \<Rightarrow> bool" where
  "is_Exception (SystemExit _) = False"
| "is_Exception KeyboardInterrupt = False"
| "is_Exception _ = True"

text \<open>
  The lines the script prints, with the values they show; the wall-clock figures
  (elapsed time, rate) are left out. \<open>Traceback\<close> is what the interpreter prints for
  an exception that nothing catches.
\<close>

datatype line =
    ErrorSetToken
  | RequestErrorRetry nat pyfloat
  | HttpRetry int nat pyfloat
  | Start int string
  | PageProgress nat nat nat
  | Done nat nat json
  | Reformatting
  | CouldNotReformat
  | SkippingPrettyPrint
  | Failed exn
  | Wrote string
  | Traceback exn

record response =
  status_code :: int
  headers :: "(string \<times> string) list"
  json_body :: "json option"

datatype get_outcome = GetRaises exn | GetReturns response

text \<open>
  The world: \<open>script\<close> holds what the coming calls of \<^verbatim>\<open>session.get\<close> will meet, in
  order; the other fields record what the script has done: the requests sent (URL and
  query parameters), the durations slept, the lines printed on either stream, and the
  content of the output file.
\<close>

record world =
  script :: "get_outcome list"
  requests :: "(json \<times> (string \<times> json) list option) list"
  slept :: "rat list"
  stdout :: "line list"
  stderr :: "line list"
  out_file :: string

text \<open>
  A computation returns, raises, or is still waiting for the network when the script
  of answers ends (\<open>Pending\<close>): a run that never ends is \<open>Pending\<close> on every finite
  prefix of the answers.
\<close>

datatype 'a outcome = Returns 'a world | Raises exn world | Pending world

definition print :: "line \<Rightarrow> world \<Rightarrow> world" where
  "print l w = w\<lparr>stdout := stdout w @ [l]\<rparr>"

definition print_err :: "line \<Rightarrow> world \<Rightarrow> world" where
  "print_err l w = w\<lparr>stderr := stderr w @ [l]\<rparr>"

text \<open>
  \<^verbatim>\<open>time.sleep\<close> (CPython 3.11 on a 64-bit platform). Not a number is a
  \<^verbatim>\<open>ValueError\<close>. The duration is multiplied by \<^verbatim>\<open>10^9\<close> in double precision and the
  product must fit a signed 64-bit count of nanoseconds, or the call raises
  \<^verbatim>\<open>OverflowError\<close>; the rounding of the product to 53 bits moves the bounds on the
  exact product to \<^verbatim>\<open>2^63 - 512\<close> and \<^verbatim>\<open>-(2^63 + 1024)\<close>. A negative duration is then
  a \<^verbatim>\<open>ValueError\<close>, and one that the operating system does not accept an \<^verbatim>\<open>OSError\<close>.
  \<open>sleep_check\<close> gives the exception, or the duration that is slept; no signal
  interrupts a sleep.
\<close>

definition ns_overflows :: "rat \<Rightarrow> bool" where
  "ns_overflows d = (2 ^ 63 - 512 \<le> d * 10 ^ 9 \<or> d * 10 ^ 9 < - (2 ^ 63 + 1024))"

definition sleep_check :: "env \<Rightarrow> pyfloat \<Rightarrow> exn + rat" where
  "sleep_check e secs =
     (case secs of
        NaN \<Rightarrow> Inl ValueError
      | PosInf \<Rightarrow> Inl OverflowError
      | NegInf \<Rightarrow> Inl OverflowError
      | Finite d \<Rightarrow>
          if ns_overflows d then Inl OverflowError
          else if d < 0 then Inl ValueError
          else if sleep_max e < d then Inl OSError
          else Inr d)"

definition time_sleep :: "env \<Rightarrow> pyfloat \<Rightarrow> world \<Rightarrow> exn + world" where
  "time_sleep e secs w =
     (case sleep_check e secs of
        Inl err \<Rightarrow> Inl err
      | Inr d \<Rightarrow> Inr (w\<lparr>slept := slept w @ [d]\<rparr>))"

text \<open>\<^verbatim>\<open>float(s)\<close>: the empty text raises \<^verbatim>\<open>ValueError\<close>.\<close>

definition py_float :: "env \<Rightarrow> string \<Rightarrow> pyfloat option" where
  "py_float e s = (if s = [] then None else float_of e s)"

text \<open>\<^verbatim>\<open>str.strip()\<close> on the characters below 256.\<close>

definition py_space :: "char \<Rightarrow> bool" where
  "py_space c =
     (c \<in> {CHR 0x09, CHR 0x0A, CHR 0x0B, CHR 0x0C, CHR 0x0D, CHR 0x1C, CHR 0x1D, CHR 0x1E,
            CHR 0x1F, CHR 0x20, CHR 0x85, CHR 0xA0})"

definition strip :: "string \<Rightarrow> string" where
  "strip s = rev (dropWhile py_space (rev (dropWhile py_space s)))"




text \<open>Iterating over a decoded value, as \<^verbatim>\<open>for item in page_items\<close> does.\<close>

fun py_iter :: "json \<Rightarrow> exn + json list" where
  "py_iter (JArr xs) = Inr xs"
| "py_iter (JObj kvs) = Inr (map (\<lambda>kv. JStr (fst kv)) kvs)"
| "py_iter (JStr s) = Inr (map (\<lambda>c. JStr [c]) s)"
| "py_iter _ = Inl TypeError"

section \<open>The HTTP client factory\<close>

definition auth_header :: "env \<Rightarrow> world \<Rightarrow> string outcome" where
  "auth_header e w =
     (if TOKEN e = [] \<or> strip (TOKEN e) = ''<PUT_YOUR_BEARER_TOKEN_HERE>''
      then Raises (SystemExit 1) (print_err ErrorSetToken w)
      else Returns (''Bearer '' @ TOKEN e) w)"

text \<open>A session is the headers it sends with every request.\<close>

definition session :: "env \<Rightarrow> world \<Rightarrow> (string \<times> string) list outcome" where
  "session e w =
     (case auth_header e w of
        Raises x w' \<Rightarrow> Raises x w'
      | Pending w' \<Rightarrow> Pending w'
      | Returns a w' \<Rightarrow>
          Returns
            [(''Accept'', ''application/json''),
             (''Authorization'', a),
             (''Accept-Encoding'', ''gzip, deflate, br''),
             (''Connection'', ''keep-alive''),
             (''User-Agent'', ''VisionOne-DeviceVuln-Fetcher/1.0'')] w')"

section \<open>The page fetcher\<close>

text \<open>One call of \<^verbatim>\<open>session.get\<close>: it takes the next answer of the script, if any.\<close>

definition session_get ::
  "(string \<times> string) list \<Rightarrow> json \<Rightarrow> (string \<times> json) list option \<Rightarrow> world
    \<Rightarrow> (get_outcome \<times> world) option" where
  "session_get s url params w =
     (case script w of
        [] \<Rightarrow> None
      | a # rest \<Rightarrow> Some (a, w\<lparr>script := rest, requests := requests w @ [(url, params)]\<rparr>))"

text \<open>The response headers are a case-insensitive dictionary.\<close>

definition headers_get :: "(string \<times> string) list \<Rightarrow> string \<Rightarrow> string option" where
  "headers_get hs k = map_of (map (\<lambda>h. (map lower_chr (fst h), snd h)) hs) (map lower_chr k)"

definition raise_for_status :: "response \<Rightarrow> exn option" where
  "raise_for_status resp =
     (if 400 \<le> status_code resp \<and> status_code resp < 600
      then Some (HTTPError (status_code resp)) else None)"

definition retryable :: "int \<Rightarrow> bool" where
  "retryable st = (st = 429 \<or> st = 500 \<or> st = 502 \<or> st = 503 \<or> st = 504)"

text \<open>
  The body of the \<^verbatim>\<open>while True\<close> loop of \<^verbatim>\<open>fetch_page\<close> (source lines 74 to 104):
  one call of \<^verbatim>\<open>session.get\<close> and what the code does with its answer. The
  iteration either ends the function (it returns, raises, or finds no answer left) or
  goes round again with a value of the attempt counter. A status that is neither 200
  nor retryable and that \<^verbatim>\<open>raise_for_status\<close> lets pass goes round again with the
  counter unchanged and without sleeping.
\<close>

datatype iteration = Finished "json outcome" | Again nat world

definition fetch_attempt ::
  "env \<Rightarrow> (string \<times> string) list \<Rightarrow> json \<Rightarrow> (string \<times> json) list option \<Rightarrow> nat \<Rightarrow> world
    \<Rightarrow> iteration" where
  "fetch_attempt e s url params attempt w =
     (case session_get s url params w of
        None \<Rightarrow> Finished (Pending w)
      | Some (GetRaises x, w1) \<Rightarrow>
          if is_RequestException x then
            (if attempt + 1 > MAX_RETRIES then Finished (Raises x w1)
             else
               (let sleep_s = Finite (BACKOFF_BASE ^ (attempt + 1));
                    w2 = print (RequestErrorRetry (attempt + 1) sleep_s) w1
                in case time_sleep e sleep_s w2 of
                     Inl err \<Rightarrow> Finished (Raises err w2)
                   | Inr w3 \<Rightarrow> Again (attempt + 1) w3))
          else Finished (Raises x w1)
      | Some (GetReturns resp, w1) \<Rightarrow>
          if status_code resp = 200 then
            (case json_body resp of
               None \<Rightarrow> Finished (Raises JSONDecodeError w1)
             | Some data \<Rightarrow> Finished (Returns data w1))
          else if retryable (status_code resp) then
            (case (if attempt + 1 > MAX_RETRIES then raise_for_status resp else None) of
               Some err \<Rightarrow> Finished (Raises err w1)
             | None \<Rightarrow>
               (let retry_after = headers_get (headers resp) ''Retry-After'';
                    sleep_s =
                      (case retry_after of
                         None \<Rightarrow> Finite (BACKOFF_BASE ^ (attempt + 1))
                       | Some h \<Rightarrow>
                           if h \<noteq> [] then
                             (case py_float e h of
                                None \<Rightarrow> Finite (BACKOFF_BASE ^ (attempt + 1))
                              | Some v \<Rightarrow> v)
                           else Finite (BACKOFF_BASE ^ (attempt + 1)));
                    w2 = print (HttpRetry (status_code resp) (attempt + 1) sleep_s) w1
                in case time_sleep e sleep_s w2 of
                     Inl err \<Rightarrow> Finished (Raises err w2)
                   | Inr w3 \<Rightarrow> Again (attempt + 1) w3))
          else
            (case raise_for_status resp of
               Some err \<Rightarrow> Finished (Raises err w1)
             | None \<Rightarrow> Again attempt w1))"

text \<open>
  The loop. It terminates on the script: every iteration that goes round again has
  taken an answer from it.
\<close>

function fetch_page_loop ::
  "env \<Rightarrow> (string \<times> string) list \<Rightarrow> json \<Rightarrow> (string \<times> json) list option \<Rightarrow> nat \<Rightarrow> world
    \<Rightarrow> json outcome" where
  "fetch_page_loop e s url params attempt w =
     (case fetch_attempt e s url params attempt w of
        Finished r \<Rightarrow> r
      | Again attempt' w' \<Rightarrow> fetch_page_loop e s url params attempt' w')"
  by pat_completeness auto
termination
  by (relation "measure (\<lambda>(e, s, url, params, attempt, w). length (script w))")
     (auto simp: fetch_attempt_def session_get_def time_sleep_def print_def Let_def
        split: list.splits if_splits option.splits get_outcome.splits sum.splits)

declare fetch_page_loop.simps [simp del]

definition fetch_page ::
  "env \<Rightarrow> (string \<times> string) list \<Rightarrow> json \<Rightarrow> (string \<times> json) list option \<Rightarrow> world
    \<Rightarrow> json outcome" where
  "fetch_page e s url params w = fetch_page_loop e s url params 0 w"

section \<open>The stream writer\<close>

text \<open>
  The \<^verbatim>\<open>for\<close> loop over the items of a page (source lines 130 to 134), on the
  \<open>first_item\<close> flag and the content of the file.
\<close>

fun write_items :: "json list \<Rightarrow> bool \<Rightarrow> string \<Rightarrow> bool \<times> string" where
  "write_items [] first_item f = (first_item, f)"
| "write_items (item # items) first_item f =
     write_items items False
       ((if \<not> first_item then f @ [CHR '','', CHR 0x0A] else f) @ dumps_bytes item)"

text \<open>
  The \<^verbatim>\<open>while True\<close> loop of \<^verbatim>\<open>stream_all\<close> (source lines 125 to 149), with the
  loop variables as arguments. It terminates on the script: a page that is returned
  has taken at least one answer from it.
\<close>

function stream_loop ::
  "env \<Rightarrow> (string \<times> string) list \<Rightarrow> json \<Rightarrow> (string \<times> json) list option \<Rightarrow> nat \<Rightarrow> nat \<Rightarrow> bool
    \<Rightarrow> world \<Rightarrow> unit outcome" where
  "stream_loop e s url params pages items_total first_item w =
     (case fetch_page e s url params w of
        Pending w1 \<Rightarrow> Pending w1
      | Raises x w1 \<Rightarrow> Raises x w1
      | Returns data w1 \<Rightarrow>
          (case data of
             JObj d \<Rightarrow>
               (case py_iter (dict_get_default d ''items'' (JArr [])) of
                  Inl x \<Rightarrow> Raises x w1
                | Inr page_items \<Rightarrow>
                    (let written = write_items page_items first_item (out_file w1);
                         w2 = w1\<lparr>out_file := snd written\<rparr>
                     in if LOG_EVERY e = 0 then Raises ZeroDivisionError w2
                        else
                          (let w3 =
                                 (if int (pages + 1) mod LOG_EVERY e = 0 \<or> pages + 1 = 1
                                  then print (PageProgress (pages + 1) (length page_items)
                                         (items_total + length page_items)) w2
                                  else w2);
                               next_link = dict_get_default d ''nextLink'' JNull
                           in if \<not> truthy next_link
                              then Returns ()
                                (print (Done (pages + 1) (items_total + length page_items)
                                   (dict_get_default d ''totalCount'' (JStr ''n/a''))) w3)
                              else stream_loop e s next_link None (pages + 1)
                                (items_total + length page_items) (fst written) w3)))
           | _ \<Rightarrow> Raises AttributeError w1))"
  by pat_completeness auto
termination
proof -
  have again: "\<And>e s url params attempt w k w'.
      fetch_attempt e s url params attempt w = Again k w' \<Longrightarrow> length (script w') < length (script w)"
    by (auto simp: fetch_attempt_def session_get_def time_sleep_def print_def Let_def
          split: list.splits if_splits option.splits get_outcome.splits sum.splits)
  have finished: "\<And>e s url params attempt w d w'.
      fetch_attempt e s url params attempt w = Finished (Returns d w')
        \<Longrightarrow> length (script w') < length (script w)"
    by (auto simp: fetch_attempt_def session_get_def time_sleep_def print_def Let_def
          split: list.splits if_splits option.splits get_outcome.splits sum.splits)
  have consumes: "fetch_page_loop e s url params attempt w = Returns d w'
      \<Longrightarrow> length (script w') < length (script w)" for e s url params attempt w d w'
  proof (induction e s url params attempt w rule: fetch_page_loop.induct)
    case (1 e s url params attempt w)
    show ?case
    proof (cases "fetch_attempt e s url params attempt w")
      case (Finished r)
      then show ?thesis
        using "1.prems" finished [of e s url params attempt w d w']
        by (simp add: fetch_page_loop.simps [of e s url params attempt w])
    next
      case (Again k w3)
      then have "fetch_page_loop e s url params k w3 = Returns d w'"
        using "1.prems" by (simp add: fetch_page_loop.simps [of e s url params attempt w])
      then have "length (script w') < length (script w3)"
        using "1.IH" Again by blast
      then show ?thesis
        using again [OF Again] by simp
    qed
  qed
  show ?thesis
    by (relation "measure (\<lambda>(e, s, url, params, pages, items_total, first_item, w). length (script w))")
       (auto simp: print_def fetch_page_def dest!: consumes)
qed

text \<open>
  The \<^verbatim>\<open>with\<close> block (source lines 121 to 151): the file is opened, which empties it,
  the opening bracket is written, the loop runs, the closing bracket is written. An
  exception leaves the block with what has been written so far.
\<close>

definition stream_block :: "env \<Rightarrow> (string \<times> string) list \<Rightarrow> world \<Rightarrow> unit outcome" where
  "stream_block e s w =
     (case stream_loop e s (JStr BASE_URL) (Some [(''top'', JInt (PAGE_SIZE e))]) 0 0 True
             (w\<lparr>out_file := [CHR ''['', CHR 0x0A]\<rparr>) of
        Pending w1 \<Rightarrow> Pending w1
      | Raises x w1 \<Rightarrow> Raises x w1
      | Returns u w1 \<Rightarrow> Returns () (w1\<lparr>out_file := out_file w1 @ [CHR 0x0A, CHR '']'', CHR 0x0A]\<rparr>))"

section \<open>The post-processor\<close>

text \<open>
  The reformat step (source lines 155 to 162). Opening the file for writing empties
  it; a failure while the new text is written leaves the part written so far. Every
  failure is caught and answered with the warning.
\<close>

definition reformat :: "env \<Rightarrow> world \<Rightarrow> world" where
  "reformat e w =
     (let w1 = print Reformatting w
      in if fault e = LoadFails then print CouldNotReformat w1
         else
           (case json_loads (out_file w1) of
              None \<Rightarrow> print CouldNotReformat w1
            | Some data \<Rightarrow>
                if fault e = OpenForWriteFails then print CouldNotReformat w1
                else
                  (case fault e of
                     DumpFailsAfter n \<Rightarrow>
                       print CouldNotReformat (w1\<lparr>out_file := take n (dump_indent 0 data)\<rparr>)
                   | _ \<Rightarrow> w1\<lparr>out_file := dump_indent 0 data\<rparr>)))"

definition stream_all :: "env \<Rightarrow> world \<Rightarrow> string outcome" where
  "stream_all e w =
     (case session e w of
        Pending w0 \<Rightarrow> Pending w0
      | Raises x w0 \<Rightarrow> Raises x w0
      | Returns s w0 \<Rightarrow>
          (let out_path = ''vulnerable_devices_'' @ now_local e @ ''.json'';
               w1 = print (Start (PAGE_SIZE e) out_path) w0
           in case stream_block e s w1 of
                Pending w2 \<Rightarrow> Pending w2
              | Raises x w2 \<Rightarrow> Raises x w2
              | Returns u w2 \<Rightarrow>
                  Returns out_path
                    (if \<not> COMPACT_OUTPUT e then reformat e w2
                     else print SkippingPrettyPrint w2)))"

section \<open>The entry point\<close>

text \<open>
  \<^verbatim>\<open>main\<close> (source lines 168 to 174): \<^verbatim>\<open>except Exception\<close> does not catch
  \<^verbatim>\<open>SystemExit\<close>; \<^verbatim>\<open>sys.exit(2)\<close> raises it.
\<close>

definition main :: "env \<Rightarrow> world \<Rightarrow> unit outcome" where
  "main e w =
     (case stream_all e w of
        Pending w1 \<Rightarrow> Pending w1
      | Raises x w1 \<Rightarrow>
          if is_Exception x then Raises (SystemExit 2) (print_err (Failed x) w1)
          else Raises x w1
      | Returns out_path w1 \<Rightarrow> Returns () (print (Wrote out_path) w1))"

text \<open>
  The exit status of the process that runs \<^verbatim>\<open>main()\<close>: 0 when it returns, the code
  of a \<^verbatim>\<open>SystemExit\<close>, 1 for any other exception that reaches the interpreter, except
  that on a \<^verbatim>\<open>KeyboardInterrupt\<close> the interpreter ends the process with the signal
  \<^verbatim>\<open>SIGINT\<close>, which a shell reports as 130; \<open>None\<close> while the process is still
  running.
\<close>

definition exit_status :: "unit outcome \<Rightarrow> int option" where
  "exit_status r =
     (case r of
        Returns u w \<Rightarrow> Some 0
      | Raises x w \<Rightarrow> (case x of SystemExit c \<Rightarrow> Some c | KeyboardInterrupt \<Rightarrow> Some 130 | _ \<Rightarrow> Some 1)
      | Pending w \<Rightarrow> None)"

definition final_world :: "'a outcome \<Rightarrow> world" where
  "final_world r = (case r of Returns v w \<Rightarrow> w | Raises x w \<Rightarrow> w | Pending w \<Rightarrow> w)"

text \<open>The world at the start of a run that will meet the answers \<open>sc\<close>.\<close>

definition start_world :: "get_outcome list \<Rightarrow> world" where
  "start_world sc =
     \<lparr>script = sc, requests = [], slept = [], stdout = [], stderr = [], out_file = []\<rparr>"





section \<open>The vocabulary of the statements\<close>

text \<open>
  Whether a computation returned or raised; the decoded bodies of the answers with
  status 200 in a part of the script, which are the pages a run fetches; the answers
  a run has taken from the script between two worlds.
\<close>

definition returned :: "'a outcome \<Rightarrow> bool" where
  "returned r = (case r of Returns v w \<Rightarrow> True | Raises x w \<Rightarrow> False | Pending w \<Rightarrow> False)"

definition raised :: "'a outcome \<Rightarrow> bool" where
  "raised r = (case r of Returns v w \<Rightarrow> False | Raises x w \<Rightarrow> True | Pending w \<Rightarrow> False)"

fun bodies :: "get_outcome list \<Rightarrow> json list" where
  "bodies [] = []"
| "bodies (GetRaises x # sc) = bodies sc"
| "bodies (GetReturns r # sc) =
     (if status_code r = 200
      then (case json_body r of None \<Rightarrow> bodies sc | Some b \<Rightarrow> b # bodies sc)
      else bodies sc)"

definition consumed :: "world \<Rightarrow> world \<Rightarrow> get_outcome list" where
  "consumed w w' = take (length (script w) - length (script w')) (script w)"

definition fetched :: "world \<Rightarrow> world \<Rightarrow> json list \<Rightarrow> bool" where
  "fetched w w' ps = (\<exists>used. script w = used @ script w' \<and> bodies used = ps)"

text \<open>
  The items the loop finds in a page (none where it would raise), the value it reads
  as the next link of a page, whether it follows it, and the pages that the loop
  handles without raising: dictionaries whose \<^verbatim>\<open>items\<close> can be iterated.
\<close>

definition page_items :: "json \<Rightarrow> json list" where
  "page_items b =
     (case b of
        JObj d \<Rightarrow> (case py_iter (dict_get_default d ''items'' (JArr [])) of Inl x \<Rightarrow> [] | Inr xs \<Rightarrow> xs)
      | _ \<Rightarrow> [])"

definition next_link :: "json \<Rightarrow> json" where
  "next_link b = (case b of JObj d \<Rightarrow> dict_get_default d ''nextLink'' JNull | _ \<Rightarrow> JNull)"

definition has_next :: "json \<Rightarrow> bool" where
  "has_next b = (case b of JObj d \<Rightarrow> truthy (dict_get_default d ''nextLink'' JNull) | _ \<Rightarrow> False)"

definition is_page :: "json \<Rightarrow> bool" where
  "is_page b =
     (case b of
        JObj d \<Rightarrow> (case py_iter (dict_get_default d ''items'' (JArr [])) of Inl x \<Rightarrow> False | Inr xs \<Rightarrow> True)
      | _ \<Rightarrow> False)"

text \<open>
  The world after the loop has handled a fetched page with the given items (source
  lines 130 to 140): the items are written, the progress line is printed on the first
  page and on every \<open>LOG_EVERY\<close>-th page.
\<close>

definition after_page :: "env \<Rightarrow> nat \<Rightarrow> nat \<Rightarrow> json list \<Rightarrow> bool \<Rightarrow> world \<Rightarrow> world" where
  "after_page e pages items_total items first_item w1 =
     (let w2 = w1\<lparr>out_file := snd (write_items items first_item (out_file w1))\<rparr>
      in if int (pages + 1) mod LOG_EVERY e = 0 \<or> pages + 1 = 1
         then print (PageProgress (pages + 1) (length items) (items_total + length items)) w2
         else w2)"

text \<open>The separator written before every item but the first (source line 132).\<close>

definition item_sep :: string where
  "item_sep = [CHR '','', CHR 0x0A]"

text \<open>
  The texts that may follow a value in a JSON text, and the text of one member of a
  dictionary as the compact serializer writes it.
\<close>

definition delim :: "string \<Rightarrow> bool" where
  "delim r = (case r of [] \<Rightarrow> False | c # _ \<Rightarrow> c = CHR '','' \<or> c = CHR '']'' \<or> c = CHR ''}'' \<or> json_ws c)"

definition member_bytes :: "string \<times> json \<Rightarrow> string" where
  "member_bytes kv = encode_string (fst kv) @ '':'' @ dumps_bytes (snd kv)"

text \<open>
  An answer that makes \<^verbatim>\<open>fetch_page\<close> try again (a request exception, or a response
  with a retryable status); the delay planned after a retryable response (the value of
  \<^verbatim>\<open>Retry-After\<close> when the header is there and \<^verbatim>\<open>float\<close> reads it, the exponential
  backoff otherwise) and after any failed attempt; the line printed before the sleep;
  the error that the last failed attempt leaves.
\<close>

definition failing :: "get_outcome \<Rightarrow> bool" where
  "failing a = (case a of GetRaises x \<Rightarrow> is_RequestException x | GetReturns r \<Rightarrow> retryable (status_code r))"

definition retry_delay :: "env \<Rightarrow> nat \<Rightarrow> response \<Rightarrow> pyfloat" where
  "retry_delay e a r =
     (case headers_get (headers r) ''Retry-After'' of
        None \<Rightarrow> Finite (BACKOFF_BASE ^ a)
      | Some h \<Rightarrow> (case py_float e h of None \<Rightarrow> Finite (BACKOFF_BASE ^ a) | Some v \<Rightarrow> v))"

definition planned_sleep :: "env \<Rightarrow> nat \<Rightarrow> get_outcome \<Rightarrow> pyfloat" where
  "planned_sleep e a ans =
     (case ans of GetRaises x \<Rightarrow> Finite (BACKOFF_BASE ^ a) | GetReturns r \<Rightarrow> retry_delay e a r)"

definition retry_line :: "get_outcome \<Rightarrow> nat \<Rightarrow> pyfloat \<Rightarrow> line" where
  "retry_line ans a d = (case ans of GetRaises x \<Rightarrow> RequestErrorRetry a d | GetReturns r \<Rightarrow> HttpRetry (status_code r) a d)"

definition last_error :: "get_outcome \<Rightarrow> exn" where
  "last_error ans = (case ans of GetRaises x \<Rightarrow> x | GetReturns r \<Rightarrow> HTTPError (status_code r))"

text \<open>
  The entries of a case-insensitive dictionary of headers that go by a name, and the
  dictionaries that hold one entry for a name at most, as those of the network library
  do.
\<close>

definition named :: "string \<Rightarrow> string \<times> string \<Rightarrow> bool" where
  "named k h = (map lower_chr (fst h) = map lower_chr k)"

definition one_entry_per_name :: "(string \<times> string) list \<Rightarrow> bool" where
  "one_entry_per_name hs = distinct (map (\<lambda>h. map lower_chr (fst h)) hs)"

text \<open>
  The world in which a retryable response has been taken from the script and the line
  that announces the retry has been printed.
\<close>

definition announced :: "json \<Rightarrow> (string \<times> json) list option \<Rightarrow> nat \<Rightarrow> response \<Rightarrow> pyfloat \<Rightarrow> world \<Rightarrow> world" where
  "announced url params a r sleep_s w =
     w\<lparr>script := tl (script w), requests := requests w @ [(url, params)],
       stdout := stdout w @ [HttpRetry (status_code r) a sleep_s]\<rparr>"



definition out_path :: "env \<Rightarrow> string" where
  "out_path e = ''vulnerable_devices_'' @ now_local e @ ''.json''"

section \<open>Example configurations and answers\<close>


definition default_env :: env where
  "default_env =
     \<lparr>now_local = ''20250101_0000'', float_of = (\<lambda>s. None), sleep_max = 9000000000,
      fault = NoFault, TM_API_TOKEN = None, PAGE_SIZE = 200, LOG_EVERY = 5,
      COMPACT_OUTPUT_var = None\<rparr>"

definition token_env :: env where
  "token_env = default_env\<lparr>TM_API_TOKEN := Some ''s3cr3t''\<rparr>"


definition some_floats :: "string \<Rightarrow> pyfloat option" where
  "some_floats s =
     (if s = ''2'' then Some (Finite 2)
      else if s = ''7'' then Some (Finite 7)
      else if s = ''-1'' then Some (Finite (- 1))
      else if s = ''10000000000'' then Some (Finite 10000000000)
      else if s = ''9100000000'' then Some (Finite 9100000000)
      else if s = ''inf'' then Some PosInf
      else if s = ''nan'' then Some NaN
      else None)"

definition float_env :: env where
  "float_env = default_env\<lparr>float_of := some_floats\<rparr>"

definition pretty_env :: "reformat_fault \<Rightarrow> env" where
  "pretty_env f = token_env\<lparr>COMPACT_OUTPUT_var := Some ''false'', fault := f\<rparr>"




text \<open>The answer 200 with a decoded body, the answer 404, a throttled answer.\<close>

definition page :: "json \<Rightarrow> get_outcome" where
  "page body = GetReturns \<lparr>status_code = 200, headers = [], json_body = Some body\<rparr>"


definition too_many_requests :: "(string \<times> string) list \<Rightarrow> get_outcome" where
  "too_many_requests hs = GetReturns \<lparr>status_code = 429, headers = hs, json_body = None\<rparr>"

text \<open>
  Three pages with a failed attempt between the first two; the second page has no
  \<^verbatim>\<open>items\<close> field.
\<close>

definition three_pages :: "get_outcome list" where
  "three_pages =
     [page (JObj [(''items'', JArr [JObj [(''id'', JInt 1), (''name'', JStr ''a'')], JInt (- 7)]),
                  (''nextLink'', JStr ''https://host/p2'')]),
      GetRaises RequestException,
      page (JObj [(''nextLink'', JStr ''https://host/p3'')]),
      page (JObj [(''items'', JArr [JStr ''z'']), (''totalCount'', JInt 3)])]"

text \<open>Empty pages before, between and after the pages that carry items.\<close>

definition sparse_pages :: "get_outcome list" where
  "sparse_pages =
     [page (JObj [(''items'', JArr []), (''nextLink'', JStr ''p2'')]),
      page (JObj [(''items'', JArr [JInt 1]), (''nextLink'', JStr ''p3'')]),
      page (JObj [(''nextLink'', JStr ''p4'')]),
      page (JObj [(''items'', JArr [JInt 2, JInt 3]), (''nextLink'', JStr ''p5'')]),
      page (JObj [(''items'', JArr [])])]"

text \<open>Two pages without any item.\<close>

definition empty_pages :: "get_outcome list" where
  "empty_pages =
     [page (JObj [(''items'', JArr []), (''nextLink'', JStr ''p2'')]),
      page (JObj [(''totalCount'', JInt 0)])]"

text \<open>Two pages, the second with a next link that is \<^verbatim>\<open>null\<close>.\<close>

definition two_then_unread :: "json list" where
  "two_then_unread =
     [JObj [(''items'', JArr [JInt 1]), (''nextLink'', JStr ''https://host/p2'')],
      JObj [(''items'', JArr [JInt 2]), (''nextLink'', JNull)]]"

text \<open>
  Six timeouts, six throttled answers that ask for two seconds, and six that ask for
  ten billion seconds.
\<close>

definition six_timeouts :: "get_outcome list" where
  "six_timeouts = replicate 6 (GetRaises RequestException)"

definition six_throttled :: "get_outcome list" where
  "six_throttled = replicate 6 (too_many_requests [(''Retry-After'', ''2'')])"

definition six_overlong :: "get_outcome list" where
  "six_overlong = replicate 6 (too_many_requests [(''Retry-After'', ''10000000000'')])"

text \<open>
  The headers of a throttled answer as a server sends them: the header that counts is
  neither the first nor written in the case the code asks for, and another header has
  a name that ends alike.
\<close>

definition busy_headers :: "string \<Rightarrow> (string \<times> string) list" where
  "busy_headers v =
     [(''Content-Type'', ''application/json''), (''X-Retry-After'', ''7''),
      (''retry-after'', v), (''Date'', ''2'')]"

section \<open>Reading back what the serializer writes\<close>

text \<open>
  The reader inverts the compact serializer: a well-formed value that is written and
  followed by a delimiter is read back as itself, and the rest of the text is left.
\<close>

lemma lt10_cases: "n < (10::nat) \<Longrightarrow> n \<in> set [0, 1, 2, 3, 4, 5, 6, 7, 8, 9]"
  by (simp, arith)

lemma lt16_cases: "n < (16::nat) \<Longrightarrow> n \<in> set [0, 1, 2, 3, 4, 5, 6, 7, 8, 9, 10, 11, 12, 13, 14, 15]"
  by (simp, arith)

lemma digit_val_nth: "n < 10 \<Longrightarrow> digit_val (digit_chars ! n) = n"
  by (drule lt10_cases) (auto simp: digit_val_def digit_chars_def)

lemma is_digit_nth: "n < 10 \<Longrightarrow> is_digit (digit_chars ! n)"
  by (drule lt10_cases) (auto simp: is_digit_def digit_chars_def)

lemma nat_of_digits_snoc: "nat_of_digits (ds @ [c]) = 10 * nat_of_digits ds + digit_val c"
  by (simp add: nat_of_digits_def)

declare digits_of_nat.simps [simp del]

lemma nat_of_digits_of_nat: "nat_of_digits (digits_of_nat n) = n"
proof (induction n rule: digits_of_nat.induct)
  case (1 n)
  show ?case
  proof (cases "n < 10")
    case True
    then show ?thesis
      using digit_val_nth [of n] by (simp add: digits_of_nat.simps [of n] nat_of_digits_def)
  next
    case False
    then show ?thesis
      using "1" digit_val_nth [of "n mod 10"]
      by (simp add: digits_of_nat.simps [of n] nat_of_digits_snoc)
  qed
qed

lemma digits_of_nat_all_digits: "list_all is_digit (digits_of_nat n)"
proof (induction n rule: digits_of_nat.induct)
  case (1 n)
  show ?case
  proof (cases "n < 10")
    case True
    then show ?thesis by (simp add: digits_of_nat.simps [of n] is_digit_nth)
  next
    case False
    then show ?thesis
      using "1" by (simp add: digits_of_nat.simps [of n] is_digit_nth)
  qed
qed

lemma digits_of_nat_nonempty: "digits_of_nat n \<noteq> []"
  by (subst digits_of_nat.simps) simp

lemma digits_of_nat_hd_zero: "hd (digits_of_nat n) = CHR ''0'' \<longleftrightarrow> n = 0"
proof (induction n rule: digits_of_nat.induct)
  case (1 n)
  show ?case
  proof (cases "n < 10")
    case True
    then show ?thesis
      by (drule_tac lt10_cases) (auto simp: digits_of_nat.simps [of n] digit_chars_def)
  next
    case False
    then have "n div 10 \<noteq> 0" by simp
    then show ?thesis
      using "1" False digits_of_nat_nonempty [of "n div 10"]
      by (simp add: digits_of_nat.simps [of n])
  qed
qed

lemma delim_not_digit: "delim r \<Longrightarrow> takeWhile is_digit r = []"
  by (cases r) (auto simp: delim_def is_digit_def digit_chars_def json_ws_def)

lemma delim_not_float:
  "delim r \<Longrightarrow> \<not> starts_with CHR ''.'' r \<and> \<not> starts_with CHR ''e'' r \<and> \<not> starts_with CHR ''E'' r"
  by (cases r) (auto simp: delim_def starts_with_def json_ws_def)

lemma takeWhile_digits: "delim r \<Longrightarrow> takeWhile is_digit (digits_of_nat m @ r) = digits_of_nat m"
  using digits_of_nat_all_digits [of m] delim_not_digit [of r]
  by (simp add: takeWhile_append2 list_all_iff)

lemma digits_of_nat_Cons: "\<exists>c cs. digits_of_nat m = c # cs \<and> is_digit c"
  using digits_of_nat_nonempty [of m] digits_of_nat_all_digits [of m]
  by (cases "digits_of_nat m") auto

lemma scan_int_digits:
  assumes "delim r"
  shows "scan_int (digits_of_nat m @ r) = Some (int m, r)"
proof -
  obtain c cs where cs: "digits_of_nat m = c # cs" "is_digit c"
    using digits_of_nat_Cons by blast
  then have nominus: "\<not> starts_with CHR ''-'' (digits_of_nat m @ r)"
    by (auto simp: starts_with_def is_digit_def digit_chars_def)
  show ?thesis
  proof (cases "m = 0")
    case True
    then have "digits_of_nat m = ''0''"
      by (simp add: digits_of_nat.simps [of 0] digit_chars_def)
    then show ?thesis
      using assms delim_not_float [OF assms] True
      by (simp add: scan_int_def starts_with_def nat_of_digits_def digit_val_def digit_chars_def)
  next
    case False
    then have "c \<noteq> CHR ''0''"
      using digits_of_nat_hd_zero [of m] cs by simp
    then have "\<not> starts_with CHR ''0'' (digits_of_nat m @ r)"
      using cs by (simp add: starts_with_def)
    then show ?thesis
      using nominus takeWhile_digits [OF assms, of m] delim_not_float [OF assms]
        digits_of_nat_nonempty [of m]
      by (simp add: scan_int_def Let_def nat_of_digits_of_nat)
  qed
qed

lemma scan_int_str_of_int:
  assumes "delim r"
  shows "scan_int (str_of_int i @ r) = Some (i, r)"
proof (cases "i < 0")
  case False
  then show ?thesis
    using scan_int_digits [OF assms, of "nat i"] by (simp add: str_of_int_def)
next
  case True
  define m where "m = nat (- i)"
  have m: "m \<noteq> 0" "int m = - i" using True by (simp_all add: m_def)
  obtain c cs where cs: "digits_of_nat m = c # cs" "is_digit c"
    using digits_of_nat_Cons by blast
  have "c \<noteq> CHR ''0''"
    using digits_of_nat_hd_zero [of m] cs m by simp
  then have "\<not> starts_with CHR ''0'' (digits_of_nat m @ r)"
    using cs by (simp add: starts_with_def)
  then have "scan_int (CHR ''-'' # digits_of_nat m @ r) = Some (- int m, r)"
    using takeWhile_digits [OF assms, of m] delim_not_float [OF assms]
      digits_of_nat_nonempty [of m]
    by (simp add: scan_int_def Let_def nat_of_digits_of_nat starts_with_def)
  then show ?thesis
    using True m by (simp add: str_of_int_def m_def)
qed

lemma hex_val_nth: "k < 16 \<Longrightarrow> hex_val (hex_chars ! k) = Some k"
  by (drule lt16_cases) (auto simp: hex_val_def hex_chars_def)

lemma hex4_control:
  assumes "n < 32"
  shows "hex4 CHR ''0'' CHR ''0'' (hex_chars ! (n div 16)) (hex_chars ! (n mod 16)) = Some n"
proof -
  have "n div 16 < 16" using assms by simp
  then have a: "hex_val (hex_chars ! (n div 16)) = Some (n div 16)" by (rule hex_val_nth)
  have b: "hex_val (hex_chars ! (n mod 16)) = Some (n mod 16)" by (rule hex_val_nth) simp
  have z: "hex_val CHR ''0'' = Some 0" by (simp add: hex_val_def hex_chars_def)
  show ?thesis by (simp add: hex4_def a b z)
qed

lemma scanstring_escape_char:
  "scanstring (escape_char c @ t) =
     (case scanstring t of None \<Rightarrow> None | Some (s, r) \<Rightarrow> Some (c # s, r))"
proof (cases "c = quote_chr \<or> c = backslash_chr \<or> c = CHR 0x0A \<or> c = CHR 0x0D \<or> c = CHR 0x09
    \<or> c = CHR 0x08 \<or> c = CHR 0x0C")
  case True
  then show ?thesis
    by (auto simp: escape_char_def unescape_def quote_chr_def backslash_chr_def split: option.splits)
next
  case named: False
  show ?thesis
  proof (cases "of_char c < (32::nat)")
    case True
    have lt: "(of_char c :: nat) < 256" using True by simp
    show ?thesis
      using named True hex4_control [OF True]
      by (auto simp: escape_char_def quote_chr_def backslash_chr_def split: option.splits)
  next
    case False
    then show ?thesis
      using named
      by (auto simp: escape_char_def quote_chr_def backslash_chr_def split: option.splits)
  qed
qed

lemma scanstring_escaped:
  "scanstring (concat (map escape_char s) @ quote_chr # r) = Some (s, r)"
  by (induction s) (simp_all add: scanstring_escape_char)

lemma scanstring_encode_string:
  "scanstring (tl (encode_string s @ r)) = Some (s, r)"
  using scanstring_escaped [of s r] by (simp add: encode_string_def)

lemma dict_set_fresh: "fst kv \<notin> fst ` set d \<Longrightarrow> dict_set d kv = d @ [kv]"
  by (induction d) auto

lemma foldl_dict_set_distinct:
  "distinct (map fst (acc @ kvs)) \<Longrightarrow> foldl dict_set acc kvs = acc @ kvs"
proof (induction kvs arbitrary: acc)
  case Nil
  then show ?case by simp
next
  case (Cons kv kvs)
  have fresh: "fst kv \<notin> fst ` set acc" using Cons.prems by auto
  have "distinct (map fst ((acc @ [kv]) @ kvs))" using Cons.prems by simp
  from Cons.IH [OF this] show ?case by (simp add: dict_set_fresh [OF fresh])
qed

lemma encode_string_first: "encode_string s @ r = quote_chr # tl (encode_string s @ r)"
  by (simp add: encode_string_def)

lemma str_of_int_first: "\<exists>c cs. str_of_int i = c # cs \<and> (c = CHR ''-'' \<or> is_digit c)"
  using digits_of_nat_Cons [of "nat i"] by (auto simp: str_of_int_def)

lemma dumps_bytes_first:
  "\<exists>c cs. dumps_bytes v = c # cs \<and> \<not> json_ws c \<and> c \<noteq> CHR '']'' \<and> c \<noteq> CHR ''}''"
proof (cases v)
  case (JInt i)
  then show ?thesis
    using str_of_int_first [of i]
    by (auto simp: json_ws_def is_digit_def digit_chars_def)
qed (auto simp: json_ws_def encode_string_def quote_chr_def)

lemma skip_ws_dumps: "list_all json_ws ws \<Longrightarrow> skip_ws (ws @ dumps_bytes v @ r) = dumps_bytes v @ r"
  using dumps_bytes_first [of v]
  by (auto simp: skip_ws_def dropWhile_append list_all_iff)

lemma join_first: "xs \<noteq> [] \<Longrightarrow> \<exists>t. join sep (map f xs) = f (hd xs) @ t"
proof (cases xs)
  case (Cons x ys)
  then show ?thesis by (cases ys) auto
qed simp

lemma join_Cons: "ys \<noteq> [] \<Longrightarrow> join sep (x # ys) = x @ sep @ join sep ys"
  by (cases ys) simp_all

lemma starts_with_Cons: "starts_with c (d # t) = (d = c)"
  by (simp add: starts_with_def)

lemma skip_ws_nonws: "\<not> json_ws c \<Longrightarrow> skip_ws (c # t) = c # t"
  by (simp add: skip_ws_def)

lemma parse_int_branch:
  assumes "delim r"
  shows "parse_value (Suc n) (str_of_int i @ r) = Some (JInt i, r)"
proof -
  obtain c cs where c: "str_of_int i = c # cs" "c = CHR ''-'' \<or> is_digit c"
    using str_of_int_first by blast
  have "scan_int (c # cs @ r) = Some (i, r)"
    using scan_int_str_of_int [OF assms, of i] c by simp
  then show ?thesis
    using c by (auto simp: starts_with_def strip_prefix_def quote_chr_def is_digit_def digit_chars_def)
qed

lemma parse_atom_branches:
  "parse_value (Suc n) (''null'' @ r) = Some (JNull, r)"
  "parse_value (Suc n) (''true'' @ r) = Some (JBool True, r)"
  "parse_value (Suc n) (''false'' @ r) = Some (JBool False, r)"
  by (simp_all add: starts_with_def strip_prefix_def quote_chr_def)

lemma parse_string_branch:
  "parse_value (Suc n) (encode_string s @ r) = Some (JStr s, r)"
  using scanstring_encode_string [of s r]
  by (simp add: starts_with_def encode_string_def)

lemma delim_simps:
  "delim (CHR '','' # r)" "delim (CHR '']'' # r)" "delim (CHR ''}'' # r)"
  by (simp_all add: delim_def)

lemma delim_ws: "list_all json_ws ws \<Longrightarrow> delim (ws @ CHR '']'' # r)"
  by (cases ws) (simp_all add: delim_def)

lemma skip_ws_close: "list_all json_ws ws \<Longrightarrow> skip_ws (ws @ CHR '']'' # r) = CHR '']'' # r"
  by (simp add: skip_ws_def dropWhile_append list_all_iff json_ws_def)

lemma skip_ws_join:
  assumes "list_all json_ws ws" and "xs \<noteq> []"
  shows "skip_ws (ws @ join sep (map dumps_bytes xs) @ r) = join sep (map dumps_bytes xs) @ r"
proof -
  obtain t where "join sep (map dumps_bytes xs) = dumps_bytes (hd xs) @ t"
    using join_first [OF assms(2)] by blast
  then show ?thesis
    using skip_ws_dumps [OF assms(1), of "hd xs" "t @ r"] by simp
qed

lemma parse_elems_join:
  assumes val: "\<And>x n r. x \<in> set xs \<Longrightarrow> delim r \<Longrightarrow> length (dumps_bytes x) \<le> n
      \<Longrightarrow> parse_value n (dumps_bytes x @ r) = Some (x, r)"
    and ws: "list_all json_ws ws1" "list_all json_ws ws2"
    and ne: "xs \<noteq> []"
    and fuel: "length (join (CHR '','' # ws1) (map dumps_bytes xs)) < n"
  shows "parse_elems n (join (CHR '','' # ws1) (map dumps_bytes xs) @ ws2 @ CHR '']'' # r) = Some (xs, r)"
  using val ne fuel
proof (induction xs arbitrary: n)
  case Nil
  then show ?case by simp
next
  case (Cons x ys)
  obtain m where n: "n = Suc m" using Cons.prems(3) by (cases n) auto
  show ?case
  proof (cases ys)
    case Nil
    have "parse_value m (dumps_bytes x @ ws2 @ CHR '']'' # r) = Some (x, ws2 @ CHR '']'' # r)"
      using Cons.prems(3) n Nil
      by (intro Cons.prems(1) delim_ws ws) simp_all
    then show ?thesis
      using Nil n by (simp add: skip_ws_close [OF ws(2)] starts_with_def)
  next
    case (Cons y zs)
    let ?rest = "join (CHR '','' # ws1) (map dumps_bytes ys) @ ws2 @ CHR '']'' # r"
    have v: "parse_value m (dumps_bytes x @ CHR '','' # ws1 @ ?rest) = Some (x, CHR '','' # ws1 @ ?rest)"
      using Cons.prems(3) n Cons
      by (intro Cons.prems(1) delim_simps) simp_all
    have ih: "parse_elems m ?rest = Some (ys, r)"
      using Cons.prems(1,3) n Cons
      by (intro Cons.IH) simp_all
    have sk: "skip_ws (ws1 @ ?rest) = ?rest"
      using skip_ws_join [OF ws(1), of ys] Cons by simp
    have sk0: "skip_ws (CHR '','' # ws1 @ ?rest) = CHR '','' # ws1 @ ?rest"
      by (simp add: skip_ws_def json_ws_def)
    have j: "join (CHR '','' # ws1) (map dumps_bytes (x # ys))
        = dumps_bytes x @ CHR '','' # ws1 @ join (CHR '','' # ws1) (map dumps_bytes ys)"
      using Cons by (simp add: join_Cons)
    show ?thesis
      unfolding n j by (simp add: v ih sk sk0 starts_with_def)
  qed
qed

lemma join_not_close:
  assumes "xs \<noteq> []"
  shows "\<not> starts_with CHR '']'' (join sep (map dumps_bytes xs) @ r)"
proof -
  obtain t where t: "join sep (map dumps_bytes xs) = dumps_bytes (hd xs) @ t"
    using join_first [OF assms] by blast
  obtain c cs where "dumps_bytes (hd xs) = c # cs" "c \<noteq> CHR '']''"
    using dumps_bytes_first [of "hd xs"] by blast
  then show ?thesis by (simp add: t starts_with_def)
qed

lemma parse_members_join:
  assumes val: "\<And>kv n r. kv \<in> set kvs \<Longrightarrow> delim r \<Longrightarrow> length (dumps_bytes (snd kv)) \<le> n
      \<Longrightarrow> parse_value n (dumps_bytes (snd kv) @ r) = Some (snd kv, r)"
    and ne: "kvs \<noteq> []"
    and fuel: "length (join '','' (map member_bytes kvs)) < n"
  shows "parse_members n (join '','' (map member_bytes kvs) @ CHR ''}'' # r) = Some (kvs, r)"
  using val ne fuel
proof (induction kvs arbitrary: n)
  case Nil
  then show ?case by simp
next
  case (Cons kv ys)
  obtain m where n: "n = Suc m" using Cons.prems(3) by (cases n) auto
  obtain k v where kv: "kv = (k, v)" by (cases kv)
  have key: "\<And>t. scanstring (tl (encode_string k @ t)) = Some (k, t)"
    by (rule scanstring_encode_string)
  have q: "\<And>t. starts_with quote_chr (encode_string k @ t)"
    by (simp add: starts_with_def encode_string_def)
  have sk: "\<And>t. skip_ws (dumps_bytes v @ t) = dumps_bytes v @ t"
    using skip_ws_dumps [of "[]" v] by simp
  have colon: "\<And>t. skip_ws (CHR '':'' # t) = CHR '':'' # t"
    by (simp add: skip_ws_def json_ws_def)
  show ?case
  proof (cases ys)
    case Nil
    have "parse_value m (dumps_bytes v @ CHR ''}'' # r) = Some (v, CHR ''}'' # r)"
      using Cons.prems(1) [of kv "CHR ''}'' # r" m] Cons.prems(3) n Nil kv
      by (simp add: delim_simps member_bytes_def)
    then show ?thesis
      unfolding n Nil kv
      by (simp add: member_bytes_def key q sk colon starts_with_Cons skip_ws_nonws json_ws_def)
  next
    case (Cons y zs)
    let ?rest = "join '','' (map member_bytes ys) @ CHR ''}'' # r"
    have v: "parse_value m (dumps_bytes v @ CHR '','' # ?rest) = Some (v, CHR '','' # ?rest)"
      using Cons.prems(1) [of kv "CHR '','' # ?rest" m] Cons.prems(3) n Cons kv
      by (simp add: delim_simps member_bytes_def)
    have ih: "parse_members m ?rest = Some (ys, r)"
      using Cons.prems(1,3) n Cons
      by (intro Cons.IH) simp_all
    obtain t where t: "join '','' (map member_bytes ys) = member_bytes (hd ys) @ t"
      using join_first [of ys "'',''" member_bytes] Cons by blast
    have sk2: "skip_ws ?rest = ?rest"
      by (simp add: t member_bytes_def encode_string_def skip_ws_def json_ws_def quote_chr_def)
    have j: "join '','' (map member_bytes ((k, v) # ys))
        = encode_string k @ CHR '':'' # dumps_bytes v @ CHR '','' # join '','' (map member_bytes ys)"
      using Cons by (simp add: join_Cons member_bytes_def)
    show ?thesis
      unfolding n kv j
      by (simp add: key q sk colon v ih sk2 starts_with_Cons skip_ws_nonws json_ws_def)
  qed
qed

lemma parse_empty_containers:
  "parse_value (Suc n) (''[]'' @ r) = Some (JArr [], r)"
  "parse_value (Suc n) (''{}'' @ r) = Some (JObj [], r)"
  by (simp_all add: starts_with_def quote_chr_def skip_ws_def json_ws_def)

lemma parse_value_dumps:
  "wf_json v \<Longrightarrow> delim r \<Longrightarrow> length (dumps_bytes v) \<le> n
    \<Longrightarrow> parse_value n (dumps_bytes v @ r) = Some (v, r)"
proof (induction v arbitrary: n r)
  case JNull
  then show ?case
    by (cases n) (simp_all add: starts_with_def strip_prefix_def quote_chr_def)
next
  case (JBool b)
  then show ?case
    by (cases n; cases b) (simp_all add: starts_with_def strip_prefix_def quote_chr_def)
next
  case (JInt i)
  obtain m where n: "n = Suc m"
    using JInt.prems(3) str_of_int_first [of i] by (cases n) auto
  show ?case
    unfolding n using JInt.prems(2) by (simp add: parse_int_branch del: parse_value.simps)
next
  case (JStr s)
  obtain m where n: "n = Suc m"
    using JStr.prems(3) by (cases n) (auto simp: encode_string_def)
  show ?case
    unfolding n by (simp add: parse_string_branch del: parse_value.simps)
next
  case (JArr xs)
  obtain m where n: "n = Suc m" using JArr.prems(3) by (cases n) auto
  show ?case
  proof (cases "xs = []")
    case True
    then show ?thesis
      using parse_empty_containers(1) [of m r] by (simp add: n del: parse_value.simps)
  next
    case False
    have el: "parse_elems m (join '','' (map dumps_bytes xs) @ [] @ CHR '']'' # r) = Some (xs, r)"
    proof (rule parse_elems_join)
      fix x k t
      assume "x \<in> set xs" "delim t" "length (dumps_bytes x) \<le> k"
      then show "parse_value k (dumps_bytes x @ t) = Some (x, t)"
        using JArr.IH [of x t k] JArr.prems(1) by (simp add: list_all_iff)
    next
      show "length (join '','' (map dumps_bytes xs)) < m"
        using JArr.prems(3) n by simp
    qed (simp_all add: False)
    have sk: "skip_ws (join '','' (map dumps_bytes xs) @ CHR '']'' # r)
        = join '','' (map dumps_bytes xs) @ CHR '']'' # r"
      using skip_ws_join [of "[]" xs "'',''" "CHR '']'' # r"] False by simp
    show ?thesis
      using el join_not_close [OF False, of "'',''" "CHR '']'' # r"]
      by (simp add: n sk starts_with_def quote_chr_def)
  qed
next
  case (JObj kvs)
  obtain m where n: "n = Suc m" using JObj.prems(3) by (cases n) auto
  have enc: "dumps_bytes (JObj kvs) = ''{'' @ join '','' (map member_bytes kvs) @ ''}''"
    by (simp add: member_bytes_def [abs_def])
  show ?case
  proof (cases "kvs = []")
    case True
    then show ?thesis
      using parse_empty_containers(2) [of m r] by (simp add: n del: parse_value.simps)
  next
    case False
    have mem: "parse_members m (join '','' (map member_bytes kvs) @ CHR ''}'' # r) = Some (kvs, r)"
    proof (rule parse_members_join)
      fix kv k t
      assume a: "kv \<in> set kvs" "delim t" "length (dumps_bytes (snd kv)) \<le> k"
      have "snd kv \<in> Basic_BNFs.snds kv" by (cases kv) simp
      moreover have "wf_json (snd kv)" using a(1) JObj.prems(1) by (simp add: list_all_iff)
      ultimately show "parse_value k (dumps_bytes (snd kv) @ t) = Some (snd kv, t)"
        using JObj.IH [of kv "snd kv" t k] a by simp
    next
      show "length (join '','' (map member_bytes kvs)) < m"
        using JObj.prems(3) n by (simp add: enc del: dumps_bytes.simps)
    qed (simp add: False)
    obtain t where t: "join '','' (map member_bytes kvs) = member_bytes (hd kvs) @ t"
      using join_first [of kvs "'',''" member_bytes] False by blast
    have sk: "skip_ws (join '','' (map member_bytes kvs) @ CHR ''}'' # r)
        = join '','' (map member_bytes kvs) @ CHR ''}'' # r"
      by (simp add: t member_bytes_def encode_string_def skip_ws_def json_ws_def quote_chr_def)
    have nc: "\<not> starts_with CHR ''}'' (join '','' (map member_bytes kvs) @ CHR ''}'' # r)"
      by (simp add: t member_bytes_def encode_string_def starts_with_def quote_chr_def)
    have d: "foldl dict_set [] kvs = kvs"
      using foldl_dict_set_distinct [of "[]" kvs] JObj.prems(1) by simp
    show ?thesis
      using mem nc
      by (simp add: n enc sk d starts_with_def quote_chr_def del: dumps_bytes.simps)
  qed
qed

section \<open>The pages a run fetches\<close>

declare stream_loop.simps [simp del]

lemma fetch_attempt_consumes:
  "fetch_attempt e s url params attempt w = Again k w' \<Longrightarrow> length (script w') < length (script w)"
  "fetch_attempt e s url params attempt w = Finished (Returns d w') \<Longrightarrow> length (script w') < length (script w)"
  by (auto simp: fetch_attempt_def session_get_def time_sleep_def print_def Let_def
        split: list.splits if_splits option.splits get_outcome.splits sum.splits)

lemma fetch_page_loop_consumes:
  "fetch_page_loop e s url params attempt w = Returns d w' \<Longrightarrow> length (script w') < length (script w)"
proof (induction e s url params attempt w rule: fetch_page_loop.induct)
  case (1 e s url params attempt w)
  show ?case
  proof (cases "fetch_attempt e s url params attempt w")
    case (Finished r)
    then show ?thesis
      using "1.prems" fetch_attempt_consumes(2) [of e s url params attempt w d w']
      by (simp add: fetch_page_loop.simps [of e s url params attempt w])
  next
    case (Again k w3)
    then have "fetch_page_loop e s url params k w3 = Returns d w'"
      using "1.prems" by (simp add: fetch_page_loop.simps [of e s url params attempt w])
    then have "length (script w') < length (script w3)"
      using "1.IH" Again by blast
    then show ?thesis
      using fetch_attempt_consumes(1) [OF Again] by simp
  qed
qed

lemma bodies_append: "bodies (xs @ ys) = bodies xs @ bodies ys"
  by (induction xs rule: bodies.induct) (auto split: option.splits)

lemma fetched_consumed: "fetched w w' ps \<Longrightarrow> bodies (consumed w w') = ps"
  by (auto simp: fetched_def consumed_def)

lemma fetched_Cons:
  "script w = a # rest \<Longrightarrow> script w3 = rest \<Longrightarrow> fetched w3 w' ps \<Longrightarrow> fetched w w' (bodies [a] @ ps)"
  unfolding fetched_def by (metis append_Cons bodies_append append_Nil)

lemma fetched_trans: "fetched w w1 ps \<Longrightarrow> fetched w1 w' qs \<Longrightarrow> fetched w w' (ps @ qs)"
  unfolding fetched_def by (metis append.assoc bodies_append)

lemma fetched_same_script: "script w1 = script w2 \<Longrightarrow> fetched w w1 ps \<Longrightarrow> fetched w w2 ps"
  by (simp add: fetched_def)

lemma fetch_attempt_again:
  assumes "fetch_attempt e s url params attempt w = Again k w3"
  shows "\<exists>a. script w = a # script w3 \<and> bodies [a] = []"
    and "out_file w3 = out_file w" and "stderr w3 = stderr w"
  using assms
  by (auto simp: fetch_attempt_def session_get_def time_sleep_def print_def Let_def
        split: list.splits if_splits option.splits get_outcome.splits sum.splits)

lemma fetch_attempt_returns:
  assumes "fetch_attempt e s url params attempt w = Finished (Returns d w1)"
  shows "\<exists>a. script w = a # script w1 \<and> bodies [a] = [d]"
    and "out_file w1 = out_file w" and "stderr w1 = stderr w"
  using assms
  by (auto simp: fetch_attempt_def session_get_def time_sleep_def print_def Let_def
        split: list.splits if_splits option.splits get_outcome.splits sum.splits)

lemma fetched_step: "script w = a # script w3 \<Longrightarrow> fetched w3 w' ps \<Longrightarrow> fetched w w' (bodies [a] @ ps)"
  by (rule fetched_Cons) simp_all

lemma fetched_one: "script w = a # script w1 \<Longrightarrow> fetched w w1 (bodies [a])"
  unfolding fetched_def by (metis append_Cons append_Nil)

lemma fetch_page_loop_fetched:
  "fetch_page_loop e s url params attempt w = Returns d w'
    \<Longrightarrow> fetched w w' [d] \<and> out_file w' = out_file w \<and> stderr w' = stderr w"
proof (induction e s url params attempt w rule: fetch_page_loop.induct)
  case (1 e s url params attempt w)
  show ?case
  proof (cases "fetch_attempt e s url params attempt w")
    case (Finished r)
    then have r: "fetch_attempt e s url params attempt w = Finished (Returns d w')"
      using "1.prems" by (simp add: fetch_page_loop.simps [of e s url params attempt w])
    from fetch_attempt_returns [OF r] show ?thesis
      using fetched_one [of w _ w'] by fastforce
  next
    case (Again k w3)
    then have "fetch_page_loop e s url params k w3 = Returns d w'"
      using "1.prems" by (simp add: fetch_page_loop.simps [of e s url params attempt w])
    then have ih: "fetched w3 w' [d]" "out_file w' = out_file w3" "stderr w' = stderr w3"
      using "1.IH" Again by blast+
    from fetch_attempt_again [OF Again] ih show ?thesis
      using fetched_step [of w _ w3 w' "[d]"] by fastforce
  qed
qed

lemma after_page_fields:
  "script (after_page e pages tot items fi w1) = script w1"
  "out_file (after_page e pages tot items fi w1) = snd (write_items items fi (out_file w1))"
  "stderr (after_page e pages tot items fi w1) = stderr w1"
  "requests (after_page e pages tot items fi w1) = requests w1"
  by (simp_all add: after_page_def print_def Let_def)

lemma stream_loop_page:
  assumes "fetch_page e s url params w = Returns (JObj d) w1"
    and "py_iter (dict_get_default d ''items'' (JArr [])) = Inr items"
    and "LOG_EVERY e \<noteq> 0"
  shows "stream_loop e s url params pages tot fi w =
     (if truthy (dict_get_default d ''nextLink'' JNull)
      then stream_loop e s (dict_get_default d ''nextLink'' JNull) None (pages + 1)
             (tot + length items) (fst (write_items items fi (out_file w1)))
             (after_page e pages tot items fi w1)
      else Returns ()
             (print (Done (pages + 1) (tot + length items)
                (dict_get_default d ''totalCount'' (JStr ''n/a'')))
                (after_page e pages tot items fi w1)))"
  using assms
  by (simp add: stream_loop.simps [of e s url params pages tot fi w] after_page_def Let_def)

lemma stream_loop_returns_page:
  assumes "stream_loop e s url params pages tot fi w = Returns u w'"
  shows "\<exists>d w1 items. fetch_page e s url params w = Returns (JObj d) w1
      \<and> py_iter (dict_get_default d ''items'' (JArr [])) = Inr items \<and> LOG_EVERY e \<noteq> 0"
  using assms
  by (simp add: stream_loop.simps [of e s url params pages tot fi w] Let_def
        split: outcome.splits json.splits sum.splits if_splits)

lemma write_items_append:
  "write_items (xs @ ys) fi f
    = write_items ys (fst (write_items xs fi f)) (snd (write_items xs fi f))"
  by (induction xs arbitrary: fi f) simp_all

lemma stream_loop_returns:
  "stream_loop e s url params pages tot fi w = Returns u w' \<Longrightarrow>
    \<exists>ps. fetched w w' ps \<and> ps \<noteq> [] \<and> list_all has_next (butlast ps) \<and> \<not> has_next (last ps)
       \<and> out_file w' = snd (write_items (concat (map page_items ps)) fi (out_file w))
       \<and> stderr w' = stderr w"
proof (induction "length (script w)" arbitrary: w url params pages tot fi rule: less_induct)
  case less
  obtain d w1 items where fp: "fetch_page e s url params w = Returns (JObj d) w1"
    and it: "py_iter (dict_get_default d ''items'' (JArr [])) = Inr items"
    and le: "LOG_EVERY e \<noteq> 0"
    using stream_loop_returns_page [OF less.prems] by blast
  let ?w3 = "after_page e pages tot items fi w1"
  let ?next = "dict_get_default d ''nextLink'' JNull"
  have f1: "fetched w w1 [JObj d]" "out_file w1 = out_file w" "stderr w1 = stderr w"
    using fetch_page_loop_fetched [of e s url params 0 w "JObj d" w1] fp
    by (simp_all add: fetch_page_def)
  have shorter: "length (script w1) < length (script w)"
    using fp fetch_page_loop_consumes by (simp add: fetch_page_def)
  have pi: "page_items (JObj d) = items"
    by (simp add: page_items_def it)
  have hn: "has_next (JObj d) = truthy ?next"
    by (simp add: has_next_def)
  note eq = stream_loop_page [OF fp it le, of pages tot fi]
  show ?case
  proof (cases "truthy ?next")
    case False
    then have w': "w' = print (Done (pages + 1) (tot + length items)
        (dict_get_default d ''totalCount'' (JStr ''n/a''))) ?w3"
      using less.prems eq by simp
    have "fetched w w' [JObj d]"
      using f1(1) by (rule fetched_same_script [rotated]) (simp add: w' print_def after_page_fields)
    moreover have "out_file w' = snd (write_items (concat (map page_items [JObj d])) fi (out_file w))"
      by (simp add: w' print_def after_page_fields pi f1)
    moreover have "stderr w' = stderr w"
      by (simp add: w' print_def after_page_fields f1)
    ultimately show ?thesis
      using False hn by (intro exI [of _ "[JObj d]"]) simp
  next
    case True
    then have rec: "stream_loop e s ?next None (pages + 1) (tot + length items)
        (fst (write_items items fi (out_file w1))) ?w3 = Returns u w'"
      using less.prems eq by simp
    have "length (script ?w3) < length (script w)"
      using shorter by (simp add: after_page_fields)
    from less.hyps [OF this rec] obtain ps where ps: "fetched ?w3 w' ps" "ps \<noteq> []"
      "list_all has_next (butlast ps)" "\<not> has_next (last ps)"
      "out_file w' = snd (write_items (concat (map page_items ps))
          (fst (write_items items fi (out_file w1))) (out_file ?w3))"
      "stderr w' = stderr ?w3"
      by blast
    have "fetched w ?w3 [JObj d]"
      using f1(1) by (rule fetched_same_script [rotated]) (simp add: after_page_fields)
    then have "fetched w w' ([JObj d] @ ps)"
      using ps(1) by (rule fetched_trans)
    moreover have "out_file w' = snd (write_items (concat (map page_items ([JObj d] @ ps))) fi (out_file w))"
      using ps(5) by (simp add: after_page_fields pi f1 write_items_append)
    moreover have "stderr w' = stderr w"
      using ps(6) by (simp add: after_page_fields f1)
    ultimately show ?thesis
      using ps(2,3,4) True hn by (intro exI [of _ "[JObj d] @ ps"]) simp
  qed
qed

section \<open>What the stream writer leaves in the file\<close>

lemma write_items_False:
  "write_items xs False f = (False, f @ concat (map (\<lambda>x. item_sep @ dumps_bytes x) xs))"
  by (induction xs arbitrary: f) (simp_all add: item_sep_def)

lemma join_concat:
  "join sep (x # xs) = x @ concat (map (\<lambda>y. sep @ y) xs)"
  by (induction xs arbitrary: x) simp_all

lemma write_items_True:
  "write_items xs True f = (xs = [], f @ join item_sep (map dumps_bytes xs))"
proof (cases xs)
  case Nil
  then show ?thesis by simp
next
  case (Cons x ys)
  then show ?thesis
    by (simp add: write_items_False join_concat comp_def)
qed

lemma json_loads_stream:
  assumes "list_all wf_json xs"
  shows "json_loads ([CHR ''['', CHR 0x0A] @ join item_sep (map dumps_bytes xs) @ [CHR 0x0A, CHR '']'', CHR 0x0A])
      = Some (JArr xs)"
proof (cases "xs = []")
  case True
  then show ?thesis
    by (simp add: json_loads_def skip_ws_def json_ws_def starts_with_def quote_chr_def)
next
  case False
  let ?j = "join item_sep (map dumps_bytes xs)"
  let ?t = "[CHR ''['', CHR 0x0A] @ ?j @ [CHR 0x0A, CHR '']'', CHR 0x0A]"
  have len: "length ?t = Suc (length ?j + 4)" by simp
  have el: "parse_elems (length ?j + 4) (join (CHR '','' # [CHR 0x0A]) (map dumps_bytes xs) @ [CHR 0x0A] @ CHR '']'' # [CHR 0x0A])
      = Some (xs, [CHR 0x0A])"
  proof (rule parse_elems_join)
    fix x n r
    assume "x \<in> set xs" "delim r" "length (dumps_bytes x) \<le> n"
    then show "parse_value n (dumps_bytes x @ r) = Some (x, r)"
      using assms by (intro parse_value_dumps) (simp_all add: list_all_iff)
  qed (simp_all add: False json_ws_def item_sep_def)
  have sk: "skip_ws ([CHR 0x0A] @ ?j @ [CHR 0x0A, CHR '']'', CHR 0x0A]) = ?j @ [CHR 0x0A, CHR '']'', CHR 0x0A]"
    by (rule skip_ws_join) (simp_all add: False json_ws_def)
  have nc: "\<not> starts_with CHR '']'' (?j @ [CHR 0x0A, CHR '']'', CHR 0x0A])"
    by (rule join_not_close [OF False])
  have pv: "\<And>m. parse_elems m (?j @ [CHR 0x0A, CHR '']'', CHR 0x0A]) = Some (xs, [CHR 0x0A])
      \<Longrightarrow> parse_value (Suc m) ?t = Some (JArr xs, [CHR 0x0A])"
    using sk nc by (simp add: starts_with_Cons quote_chr_def)
  have st: "skip_ws ?t = ?t"
    by (simp add: skip_ws_def json_ws_def)
  have "parse_value (length ?t) (skip_ws ?t) = Some (JArr xs, [CHR 0x0A])"
    unfolding st len using el by (intro pv) (simp add: item_sep_def)
  then show ?thesis
    unfolding json_loads_def by (simp add: skip_ws_def json_ws_def)
qed

lemma wf_json_dict_get_default:
  "wf_json (JObj d) \<Longrightarrow> wf_json dflt \<Longrightarrow> wf_json (dict_get_default d k dflt)"
  by (auto simp: dict_get_default_def list_all_iff split: option.splits dest!: map_of_SomeD)

lemma wf_json_py_iter: "wf_json v \<Longrightarrow> py_iter v = Inr xs \<Longrightarrow> list_all wf_json xs"
  by (cases v) (auto simp: list_all_iff)

lemma wf_page_items: "wf_json b \<Longrightarrow> list_all wf_json (page_items b)"
proof (cases b)
  case (JObj d)
  assume "wf_json b"
  then have "wf_json (dict_get_default d ''items'' (JArr []))"
    unfolding JObj by (rule wf_json_dict_get_default) simp
  then show ?thesis
    using wf_json_py_iter by (auto simp: page_items_def JObj split: sum.splits)
qed (simp_all add: page_items_def)

lemma stream_block_returns:
  assumes "stream_block e s w = Returns u w'"
  shows "\<exists>ps. fetched w w' ps \<and> ps \<noteq> [] \<and> list_all has_next (butlast ps) \<and> \<not> has_next (last ps)
     \<and> out_file w' = [CHR ''['', CHR 0x0A] @ join item_sep (map dumps_bytes (concat (map page_items ps)))
          @ [CHR 0x0A, CHR '']'', CHR 0x0A]
     \<and> stderr w' = stderr w"
proof -
  let ?w0 = "w\<lparr>out_file := [CHR ''['', CHR 0x0A]\<rparr>"
  obtain w1 where loop: "stream_loop e s (JStr BASE_URL) (Some [(''top'', JInt (PAGE_SIZE e))]) 0 0 True ?w0
      = Returns () w1" and w': "w' = w1\<lparr>out_file := out_file w1 @ [CHR 0x0A, CHR '']'', CHR 0x0A]\<rparr>"
    using assms by (auto simp: stream_block_def split: outcome.splits)
  from stream_loop_returns [OF loop] obtain ps where ps: "fetched ?w0 w1 ps" "ps \<noteq> []"
    "list_all has_next (butlast ps)" "\<not> has_next (last ps)"
    "out_file w1 = snd (write_items (concat (map page_items ps)) True (out_file ?w0))"
    "stderr w1 = stderr ?w0"
    by blast
  have "fetched w w' ps"
    using ps(1) by (simp add: fetched_def w')
  moreover have "out_file w' = [CHR ''['', CHR 0x0A]
      @ join item_sep (map dumps_bytes (concat (map page_items ps))) @ [CHR 0x0A, CHR '']'', CHR 0x0A]"
    using ps(5) by (simp add: w' write_items_True)
  moreover have "stderr w' = stderr w"
    using ps(6) by (simp add: w')
  ultimately show ?thesis
    using ps(2,3,4) by blast
qed

lemma returned_final: "returned r \<Longrightarrow> \<exists>u. r = Returns u (final_world r)"
  by (cases r) (simp_all add: returned_def final_world_def)

lemma stream_block_pages:
  assumes "returned (stream_block e s w)"
  defines "w' \<equiv> final_world (stream_block e s w)"
  defines "ps \<equiv> bodies (consumed w w')"
  shows "ps \<noteq> []" and "list_all has_next (butlast ps)" and "\<not> has_next (last ps)"
    and "out_file w' = [CHR ''['', CHR 0x0A] @ join item_sep (map dumps_bytes (concat (map page_items ps)))
          @ [CHR 0x0A, CHR '']'', CHR 0x0A]"
    and "\<exists>unread. bodies (script w) = ps @ unread"
    and "stderr w' = stderr w"
proof -
  obtain u where "stream_block e s w = Returns u w'"
    using returned_final [OF assms(1)] by (auto simp: w'_def)
  from stream_block_returns [OF this] obtain qs where qs: "fetched w w' qs" "qs \<noteq> []"
    "list_all has_next (butlast qs)" "\<not> has_next (last qs)"
    "out_file w' = [CHR ''['', CHR 0x0A] @ join item_sep (map dumps_bytes (concat (map page_items qs)))
          @ [CHR 0x0A, CHR '']'', CHR 0x0A]"
    "stderr w' = stderr w"
    by blast
  have eq: "ps = qs"
    unfolding ps_def by (rule fetched_consumed [OF qs(1)])
  show "ps \<noteq> []" "list_all has_next (butlast ps)" "\<not> has_next (last ps)"
    "out_file w' = [CHR ''['', CHR 0x0A] @ join item_sep (map dumps_bytes (concat (map page_items ps)))
          @ [CHR 0x0A, CHR '']'', CHR 0x0A]" "stderr w' = stderr w"
    using qs by (simp_all add: eq)
  show "\<exists>unread. bodies (script w) = ps @ unread"
    using qs(1) by (auto simp: eq fetched_def bodies_append)
qed

lemma has_next_eq: "has_next b = truthy (next_link b)"
  by (cases b) (simp_all add: has_next_def next_link_def)

lemma fetch_page_page:
  "script w = page b # rest \<Longrightarrow>
    fetch_page e s url params w
      = Returns b (w\<lparr>script := rest, requests := requests w @ [(url, params)]\<rparr>)"
  by (simp add: fetch_page_def fetch_page_loop.simps [of e s url params 0 w] fetch_attempt_def
        session_get_def page_def)

lemma stream_loop_clean:
  assumes le: "LOG_EVERY e \<noteq> 0"
  shows "bs \<noteq> [] \<Longrightarrow> list_all is_page bs \<Longrightarrow> list_all has_next (butlast bs)
    \<Longrightarrow> \<not> has_next (last bs) \<Longrightarrow> script w = map page bs @ rest
    \<Longrightarrow> \<exists>w'. stream_loop e s url params pages tot fi w = Returns () w' \<and> script w' = rest
          \<and> requests w' = requests w @ (url, params) # map (\<lambda>b. (next_link b, None)) (butlast bs)"
proof (induction bs arbitrary: w url params pages tot fi)
  case Nil
  then show ?case by simp
next
  case (Cons b bs)
  let ?w1 = "w\<lparr>script := map page bs @ rest, requests := requests w @ [(url, params)]\<rparr>"
  obtain d items where b: "b = JObj d"
    and it: "py_iter (dict_get_default d ''items'' (JArr [])) = Inr items"
    using Cons.prems(2) by (auto simp: is_page_def split: json.splits sum.splits)
  have fp: "fetch_page e s url params w = Returns (JObj d) ?w1"
    using fetch_page_page [of w b "map page bs @ rest" e s url params] Cons.prems(5) by (simp add: b)
  note eq = stream_loop_page [OF fp it le, of pages tot fi]
  have nl: "dict_get_default d ''nextLink'' JNull = next_link b"
    by (simp add: next_link_def b)
  show ?case
  proof (cases "bs = []")
    case True
    then have "\<not> truthy (next_link b)"
      using Cons.prems(4) by (simp add: has_next_eq)
    then show ?thesis
      using eq True by (simp add: nl print_def after_page_fields)
  next
    case False
    then have tr: "truthy (next_link b)"
      using Cons.prems(3) by (simp add: has_next_eq)
    let ?w3 = "after_page e pages tot items fi ?w1"
    have "\<exists>w'. stream_loop e s (next_link b) None (pages + 1) (tot + length items)
          (fst (write_items items fi (out_file ?w1))) ?w3 = Returns () w' \<and> script w' = rest
        \<and> requests w' = requests ?w3 @ (next_link b, None) # map (\<lambda>b. (next_link b, None)) (butlast bs)"
      using Cons.prems False by (intro Cons.IH) (simp_all add: after_page_fields)
    then show ?thesis
      using eq tr False by (simp add: nl after_page_fields)
  qed
qed

section \<open>The token check\<close>

text \<open>
  Claim C1: with an empty or placeholder token, and so with the built-in default used
  when \<^verbatim>\<open>TM_API_TOKEN\<close> is unset, the program writes a diagnostic to standard error
  and exits with status 1 before any network request. The code does not do this: the
  built-in default \<^verbatim>\<open><API key here>\<close> is not the placeholder that \<^verbatim>\<open>_auth_header\<close>
  compares with, so with the variable unset the header \<^verbatim>\<open>Bearer <API key here>\<close> is
  built, the first page is requested, nothing is written to standard error and, with
  a one-page answer, the run exits with status 0.
\<close>

theorem unset_token_is_sent:
  "TOKEN default_env = ''<API key here>''
   \<and> auth_header default_env (start_world [page (JObj [])])
       = Returns ''Bearer <API key here>'' (start_world [page (JObj [])])
   \<and> exit_status (main default_env (start_world [page (JObj [])])) = Some 0
   \<and> requests (final_world (main default_env (start_world [page (JObj [])])))
       = [(JStr BASE_URL, Some [(''top'', JInt 200)])]
   \<and> stderr (final_world (main default_env (start_world [page (JObj [])]))) = []"
  by code_simp

section \<open>The output file\<close>

text \<open>
  Claim C2: for every sequence of fetched pages, the text the streaming block leaves in
  the file is a JSON array whose elements are the items of the pages, page after page
  and in the order of each page, each equal to the fetched item; their number is the
  sum of the sizes of the pages. The pages are the decoded bodies of the answers the
  run has taken from the script, with whatever failed attempts lie between them; the
  decoded values are well formed, as Python dictionaries are.
\<close>

theorem stream_block_writes_the_items:
  assumes "returned (stream_block e s w)" and "list_all wf_json (bodies (script w))"
  shows "json_loads (out_file (final_world (stream_block e s w)))
      = Some (JArr (concat (map page_items
          (bodies (consumed w (final_world (stream_block e s w)))))))
    \<and> length (concat (map page_items (bodies (consumed w (final_world (stream_block e s w))))))
      = sum_list (map (\<lambda>p. length (page_items p))
          (bodies (consumed w (final_world (stream_block e s w)))))"
proof -
  let ?ps = "bodies (consumed w (final_world (stream_block e s w)))"
  obtain unread where "bodies (script w) = ?ps @ unread"
    using stream_block_pages(5) [OF assms(1)] by blast
  then have "list_all wf_json ?ps"
    using assms(2) by simp
  then have "list_all wf_json (concat (map page_items ?ps))"
    using wf_page_items by (auto simp: list_all_iff)
  then show ?thesis
    using stream_block_pages(4) [OF assms(1)] json_loads_stream
    by (simp add: length_concat comp_def)
qed

theorem stream_block_writes_the_items_witness:
  "returned (stream_block default_env [] (start_world three_pages))
   \<and> list_all wf_json (bodies (script (start_world three_pages)))
   \<and> json_loads (out_file (final_world (stream_block default_env [] (start_world three_pages))))
       = Some (JArr [JObj [(''id'', JInt 1), (''name'', JStr ''a'')], JInt (- 7), JStr ''z''])"
proof -
  have r: "returned (stream_block default_env [] (start_world three_pages))"
    by code_simp
  have wf: "list_all wf_json (bodies (script (start_world three_pages)))"
    by code_simp
  have ev: "concat (map page_items (bodies (consumed (start_world three_pages)
      (final_world (stream_block default_env [] (start_world three_pages))))))
      = [JObj [(''id'', JInt 1), (''name'', JStr ''a'')], JInt (- 7), JStr ''z'']"
    by code_simp
  from stream_block_writes_the_items [OF r wf] have
    "json_loads (out_file (final_world (stream_block default_env [] (start_world three_pages))))
      = Some (JArr [JObj [(''id'', JInt 1), (''name'', JStr ''a'')], JInt (- 7), JStr ''z''])"
    by (simp only: ev)
  with r wf show ?thesis by blast
qed

text \<open>
  Claim C3: for every sequence of fetched pages, with empty pages anywhere in it or
  with empty pages only, the text the streaming block leaves in the file reads as one
  JSON array: it is the opening bracket, the items with one separator between any
  two of them, and the closing bracket.
\<close>

theorem stream_block_writes_one_array:
  assumes "returned (stream_block e s w)" and "list_all wf_json (bodies (script w))"
  shows "(\<exists>xs. json_loads (out_file (final_world (stream_block e s w))) = Some (JArr xs))
    \<and> out_file (final_world (stream_block e s w))
      = [CHR ''['', CHR 0x0A]
        @ join item_sep (map dumps_bytes (concat (map page_items
            (bodies (consumed w (final_world (stream_block e s w)))))))
        @ [CHR 0x0A, CHR '']'', CHR 0x0A]"
proof -
  let ?ps = "bodies (consumed w (final_world (stream_block e s w)))"
  obtain unread where "bodies (script w) = ?ps @ unread"
    using stream_block_pages(5) [OF assms(1)] by blast
  then have "list_all wf_json ?ps"
    using assms(2) by simp
  then have "list_all wf_json (concat (map page_items ?ps))"
    using wf_page_items by (auto simp: list_all_iff)
  from json_loads_stream [OF this] show ?thesis
    using stream_block_pages(4) [OF assms(1)] by simp
qed

theorem stream_block_writes_one_array_witness:
  "returned (stream_block default_env [] (start_world sparse_pages))
   \<and> list_all wf_json (bodies (script (start_world sparse_pages)))
   \<and> (\<exists>xs. json_loads (out_file (final_world (stream_block default_env [] (start_world sparse_pages))))
         = Some (JArr xs))
   \<and> out_file (final_world (stream_block default_env [] (start_world sparse_pages)))
       = [CHR ''['', CHR 0x0A, CHR ''1'', CHR '','', CHR 0x0A, CHR ''2'', CHR '','', CHR 0x0A, CHR ''3'',
          CHR 0x0A, CHR '']'', CHR 0x0A]"
proof -
  have r: "returned (stream_block default_env [] (start_world sparse_pages))"
    by code_simp
  have wf: "list_all wf_json (bodies (script (start_world sparse_pages)))"
    by code_simp
  have ev: "out_file (final_world (stream_block default_env [] (start_world sparse_pages)))
       = [CHR ''['', CHR 0x0A, CHR ''1'', CHR '','', CHR 0x0A, CHR ''2'', CHR '','', CHR 0x0A, CHR ''3'',
          CHR 0x0A, CHR '']'', CHR 0x0A]"
    by code_simp
  from stream_block_writes_one_array [OF r wf] have
    "\<exists>xs. json_loads (out_file (final_world (stream_block default_env [] (start_world sparse_pages))))
        = Some (JArr xs)"
    by (rule conjunct1)
  with r wf ev show ?thesis by blast
qed

text \<open>
  Claim C4, as amended: when no fetched page carries an item, the content of the file
  at the end of the streaming block is exactly the five characters \<^verbatim>\<open>[\n\n]\n\<close>.
  The claim counts six; the text it spells out has five.
\<close>

theorem empty_pages_give_five_bytes:
  assumes "returned (stream_block e s w)"
    and "list_all (\<lambda>p. page_items p = [])
           (bodies (consumed w (final_world (stream_block e s w))))"
  shows "out_file (final_world (stream_block e s w)) = [CHR ''['', CHR 0x0A, CHR 0x0A, CHR '']'', CHR 0x0A]
    \<and> length (out_file (final_world (stream_block e s w))) = 5"
proof -
  let ?ps = "bodies (consumed w (final_world (stream_block e s w)))"
  have c: "concat (map page_items ?ps) = []"
    using assms(2) by (simp add: list_all_iff)
  show ?thesis
    unfolding stream_block_pages(4) [OF assms(1)] c by simp
qed

theorem empty_pages_give_five_bytes_witness:
  "returned (stream_block default_env [] (start_world empty_pages))
   \<and> list_all (\<lambda>p. page_items p = [])
       (bodies (consumed (start_world empty_pages)
          (final_world (stream_block default_env [] (start_world empty_pages)))))
   \<and> out_file (final_world (stream_block default_env [] (start_world empty_pages)))
       = [CHR ''['', CHR 0x0A, CHR 0x0A, CHR '']'', CHR 0x0A]"
proof -
  have r: "returned (stream_block default_env [] (start_world empty_pages))"
    by code_simp
  have em: "list_all (\<lambda>p. page_items p = [])
       (bodies (consumed (start_world empty_pages)
          (final_world (stream_block default_env [] (start_world empty_pages)))))"
    by code_simp
  from empty_pages_give_five_bytes [OF r em] r em show ?thesis by blast
qed

theorem empty_pages_are_not_six_bytes:
  "returned (stream_block default_env [] (start_world empty_pages))
   \<and> concat (map page_items (bodies (script (start_world empty_pages)))) = []
   \<and> length (out_file (final_world (stream_block default_env [] (start_world empty_pages)))) \<noteq> 6"
  by code_simp

section \<open>Pagination\<close>

text \<open>
  Claim C5, as amended: the pagination loop stops, other than by an exception, exactly
  at the first fetched page whose \<^verbatim>\<open>nextLink\<close> is absent or falsy (\<^verbatim>\<open>null\<close>, the empty
  string): every page fetched before the last one has a truthy next link and the last
  one has none; and on answers where the first such page is the last of \<open>bs\<close>, the
  loop returns having requested the base URL with the \<^verbatim>\<open>top\<close> parameter and then the
  next link of every earlier page, with no parameters, leaving the rest unread. The
  claim as stated fails on a page whose \<^verbatim>\<open>nextLink\<close> is present and empty.
\<close>

theorem pagination_follows_truthy_next_link:
  "(returned (stream_block e s w) \<longrightarrow>
      bodies (consumed w (final_world (stream_block e s w))) \<noteq> []
      \<and> list_all has_next (butlast (bodies (consumed w (final_world (stream_block e s w)))))
      \<and> \<not> has_next (last (bodies (consumed w (final_world (stream_block e s w))))))
   \<and> (LOG_EVERY e \<noteq> 0 \<and> bs \<noteq> [] \<and> list_all is_page bs \<and> list_all has_next (butlast bs)
        \<and> \<not> has_next (last bs) \<and> script w = map page bs @ rest \<longrightarrow>
      returned (stream_block e s w)
      \<and> script (final_world (stream_block e s w)) = rest
      \<and> requests (final_world (stream_block e s w))
         = requests w @ (JStr BASE_URL, Some [(''top'', JInt (PAGE_SIZE e))])
             # map (\<lambda>b. (next_link b, None)) (butlast bs))"
proof (intro conjI impI)
  assume r: "returned (stream_block e s w)"
  show "bodies (consumed w (final_world (stream_block e s w))) \<noteq> []"
    by (rule stream_block_pages(1) [OF r])
  show "list_all has_next (butlast (bodies (consumed w (final_world (stream_block e s w)))))"
    by (rule stream_block_pages(2) [OF r])
  show "\<not> has_next (last (bodies (consumed w (final_world (stream_block e s w)))))"
    by (rule stream_block_pages(3) [OF r])
next
  assume a: "LOG_EVERY e \<noteq> 0 \<and> bs \<noteq> [] \<and> list_all is_page bs \<and> list_all has_next (butlast bs)
        \<and> \<not> has_next (last bs) \<and> script w = map page bs @ rest"
  let ?w0 = "w\<lparr>out_file := [CHR ''['', CHR 0x0A]\<rparr>"
  have "script ?w0 = map page bs @ rest" using a by simp
  with a obtain w' where w': "stream_loop e s (JStr BASE_URL) (Some [(''top'', JInt (PAGE_SIZE e))]) 0 0 True ?w0
      = Returns () w'" "script w' = rest"
    "requests w' = requests ?w0 @ (JStr BASE_URL, Some [(''top'', JInt (PAGE_SIZE e))])
        # map (\<lambda>b. (next_link b, None)) (butlast bs)"
    using stream_loop_clean [of e bs ?w0 rest s "JStr BASE_URL" "Some [(''top'', JInt (PAGE_SIZE e))]" 0 0 True]
    by blast
  then have sb: "stream_block e s w = Returns () (w'\<lparr>out_file := out_file w' @ [CHR 0x0A, CHR '']'', CHR 0x0A]\<rparr>)"
    by (simp add: stream_block_def)
  show "returned (stream_block e s w)"
    by (simp add: sb returned_def)
  show "script (final_world (stream_block e s w)) = rest"
    by (simp add: sb final_world_def w')
  show "requests (final_world (stream_block e s w))
         = requests w @ (JStr BASE_URL, Some [(''top'', JInt (PAGE_SIZE e))])
             # map (\<lambda>b. (next_link b, None)) (butlast bs)"
    by (simp add: sb final_world_def w')
qed

theorem pagination_follows_truthy_next_link_witness:
  "returned (stream_block default_env []
      (start_world (map page two_then_unread @ [page (JObj [(''items'', JArr [JInt 3])])])))
   \<and> script (final_world (stream_block default_env []
        (start_world (map page two_then_unread @ [page (JObj [(''items'', JArr [JInt 3])])]))))
      = [page (JObj [(''items'', JArr [JInt 3])])]
   \<and> requests (final_world (stream_block default_env []
        (start_world (map page two_then_unread @ [page (JObj [(''items'', JArr [JInt 3])])]))))
      = [(JStr BASE_URL, Some [(''top'', JInt 200)]), (JStr ''https://host/p2'', None)]
   \<and> \<not> has_next (last (bodies (consumed
        (start_world (map page two_then_unread @ [page (JObj [(''items'', JArr [JInt 3])])]))
        (final_world (stream_block default_env []
          (start_world (map page two_then_unread @ [page (JObj [(''items'', JArr [JInt 3])])])))))))"
proof -
  let ?w = "start_world (map page two_then_unread @ [page (JObj [(''items'', JArr [JInt 3])])])"
  have h: "LOG_EVERY default_env \<noteq> 0 \<and> two_then_unread \<noteq> [] \<and> list_all is_page two_then_unread
      \<and> list_all has_next (butlast two_then_unread) \<and> \<not> has_next (last two_then_unread)
      \<and> script ?w = map page two_then_unread @ [page (JObj [(''items'', JArr [JInt 3])])]"
    by code_simp
  have ev: "requests ?w @ (JStr BASE_URL, Some [(''top'', JInt (PAGE_SIZE default_env))])
      # map (\<lambda>b. (next_link b, None)) (butlast two_then_unread)
      = [(JStr BASE_URL, Some [(''top'', JInt 200)]), (JStr ''https://host/p2'', None)]"
    by code_simp
  note t = pagination_follows_truthy_next_link [of default_env "[]" ?w two_then_unread
      "[page (JObj [(''items'', JArr [JInt 3])])]"]
  from t h have r: "returned (stream_block default_env [] ?w)"
    and sc: "script (final_world (stream_block default_env [] ?w)) = [page (JObj [(''items'', JArr [JInt 3])])]"
    and rq: "requests (final_world (stream_block default_env [] ?w))
      = requests ?w @ (JStr BASE_URL, Some [(''top'', JInt (PAGE_SIZE default_env))])
      # map (\<lambda>b. (next_link b, None)) (butlast two_then_unread)"
    by blast+
  from t r have "\<not> has_next (last (bodies (consumed ?w (final_world (stream_block default_env [] ?w)))))"
    by blast
  with r sc rq [unfolded ev] show ?thesis by blast
qed

theorem empty_next_link_stops_the_loop:
  "dict_get [(''items'', JArr [JInt 1]), (''nextLink'', JStr [])] ''nextLink'' = Some (JStr [])
   \<and> returned (stream_block default_env []
        (start_world [page (JObj [(''items'', JArr [JInt 1]), (''nextLink'', JStr [])]), page (JObj [])]))
   \<and> requests (final_world (stream_block default_env []
        (start_world [page (JObj [(''items'', JArr [JInt 1]), (''nextLink'', JStr [])]), page (JObj [])])))
       = [(JStr BASE_URL, Some [(''top'', JInt 200)])]
   \<and> script (final_world (stream_block default_env []
        (start_world [page (JObj [(''items'', JArr [JInt 1]), (''nextLink'', JStr [])]), page (JObj [])])))
       = [page (JObj [])]"
  by code_simp



section \<open>Retries\<close>

lemma backoff_nonneg: "0 \<le> BACKOFF_BASE ^ n"
  by (simp add: BACKOFF_BASE_def)

lemma fetch_attempt_failing:
  assumes "script w = a # rest" and "failing a"
  shows "fetch_attempt e s url params attempt w =
      (if attempt + 1 > MAX_RETRIES
       then Finished (Raises (last_error a) (w\<lparr>script := rest, requests := requests w @ [(url, params)]\<rparr>))
       else (case sleep_check e (planned_sleep e (attempt + 1) a) of
          Inl err \<Rightarrow>
            Finished (Raises err
              (print (retry_line a (attempt + 1) (planned_sleep e (attempt + 1) a))
                 (w\<lparr>script := rest, requests := requests w @ [(url, params)]\<rparr>)))
        | Inr d \<Rightarrow>
            Again (attempt + 1)
              ((print (retry_line a (attempt + 1) (planned_sleep e (attempt + 1) a))
                 (w\<lparr>script := rest, requests := requests w @ [(url, params)]\<rparr>))
               \<lparr>slept := slept w @ [d]\<rparr>)))"
proof (cases a)
  case (GetRaises x)
  then show ?thesis
    using assms
    by (simp add: fetch_attempt_def session_get_def failing_def planned_sleep_def retry_line_def
          last_error_def time_sleep_def print_def Let_def split: sum.splits)
next
  case (GetReturns r)
  have st: "status_code r \<noteq> 200" "raise_for_status r = Some (HTTPError (status_code r))"
    using assms(2) GetReturns by (auto simp: failing_def retryable_def raise_for_status_def)
  have d: "(case headers_get (headers r) ''Retry-After'' of
        None \<Rightarrow> Finite (BACKOFF_BASE ^ (attempt + 1))
      | Some h \<Rightarrow> if h \<noteq> [] then (case py_float e h of None \<Rightarrow> Finite (BACKOFF_BASE ^ (attempt + 1)) | Some v \<Rightarrow> v)
                 else Finite (BACKOFF_BASE ^ (attempt + 1))) = retry_delay e (attempt + 1) r"
    by (simp add: retry_delay_def py_float_def split: option.splits)
  show ?thesis
    using assms GetReturns st
    by (simp add: fetch_attempt_def session_get_def failing_def planned_sleep_def retry_line_def
          last_error_def time_sleep_def print_def Let_def d split: sum.splits)
qed

lemma headers_get_named:
  assumes "one_entry_per_name hs" and "h \<in> set hs" and "named k h"
  shows "headers_get hs k = Some (snd h)"
proof -
  let ?kvs = "map (\<lambda>h. (map lower_chr (fst h), snd h)) hs"
  have "distinct (map fst ?kvs)"
    using assms(1) by (simp add: one_entry_per_name_def comp_def)
  moreover have "(map lower_chr k, snd h) \<in> set ?kvs"
    using assms(2,3) by (force simp: named_def)
  ultimately have "map_of ?kvs (map lower_chr k) = Some (snd h)"
    by (rule map_of_is_SomeI)
  then show ?thesis by (simp add: headers_get_def)
qed

lemma headers_get_unnamed:
  assumes "\<forall>h \<in> set hs. \<not> named k h"
  shows "headers_get hs k = None"
proof -
  have "map lower_chr k \<notin> fst ` set (map (\<lambda>h. (map lower_chr (fst h), snd h)) hs)"
    using assms by (auto simp: named_def)
  then show ?thesis
    unfolding headers_get_def map_of_eq_None_iff .
qed

lemma headers_get_found:
  assumes "headers_get hs k = Some v"
  shows "\<exists>h \<in> set hs. named k h \<and> snd h = v"
proof -
  have "(map lower_chr k, v) \<in> set (map (\<lambda>h. (map lower_chr (fst h), snd h)) hs)"
    using assms unfolding headers_get_def by (rule map_of_SomeD)
  then obtain h where "h \<in> set hs" "map lower_chr (fst h) = map lower_chr k" "snd h = v"
    by auto
  then show ?thesis
    by (intro bexI [of _ h]) (simp_all add: named_def)
qed

lemma fetch_attempt_slept:
  "fetch_attempt e s url params attempt w = Again k w3 \<Longrightarrow> \<exists>ds. slept w3 = slept w @ ds"
  "fetch_attempt e s url params attempt w = Finished r \<Longrightarrow> slept (final_world r) = slept w"
  by (auto simp: fetch_attempt_def session_get_def time_sleep_def print_def Let_def final_world_def
        split: list.splits if_splits option.splits get_outcome.splits sum.splits)

lemma fetch_page_loop_slept:
  "\<exists>ds. slept (final_world (fetch_page_loop e s url params attempt w)) = slept w @ ds"
proof (induction e s url params attempt w rule: fetch_page_loop.induct)
  case (1 e s url params attempt w)
  show ?case
  proof (cases "fetch_attempt e s url params attempt w")
    case (Finished r)
    then show ?thesis
      using fetch_attempt_slept(2) [OF Finished]
      by (simp add: fetch_page_loop.simps [of e s url params attempt w])
  next
    case (Again k w3)
    obtain ds where "slept w3 = slept w @ ds"
      using fetch_attempt_slept(1) [OF Again] by blast
    moreover obtain ds' where "slept (final_world (fetch_page_loop e s url params k w3)) = slept w3 @ ds'"
      using "1.IH" [OF Again] by blast
    ultimately show ?thesis
      using Again by (simp add: fetch_page_loop.simps [of e s url params attempt w])
  qed
qed

text \<open>
  Claim C7, as amended: when an attempt returns a status in \<open>{429, 500, 502, 503, 504}\<close>
  and the retry ceiling is not exceeded, the duration handed to \<^verbatim>\<open>time.sleep\<close> is the
  value that \<^verbatim>\<open>float\<close> reads from the \<^verbatim>\<open>Retry-After\<close> header (the one header of that
  name, whatever its case and its place among the headers) when the header is there
  and \<^verbatim>\<open>float\<close> reads it, and \<open>BACKOFF_BASE ^ attempt\<close> otherwise. When
  \<^verbatim>\<open>time.sleep\<close> accepts the duration, the loop sleeps for it and goes round again
  with the counter raised. When it does not (a negative value, not a number, an
  infinity, a value beyond the range of \<^verbatim>\<open>time.sleep\<close>) there is no sleep and no
  retry: the exception of \<^verbatim>\<open>time.sleep\<close> leaves \<^verbatim>\<open>fetch_page\<close>. The claim as stated
  fails on \<^verbatim>\<open>Retry-After: -1\<close>.
\<close>

theorem retry_after_sets_the_sleep:
  assumes "script w = GetReturns r # rest" and "retryable (status_code r)"
    and "attempt + 1 \<le> MAX_RETRIES" and "one_entry_per_name (headers r)"
    and "(\<exists>h \<in> set (headers r). named ''Retry-After'' h \<and> py_float e (snd h) = Some sleep_s)
         \<or> ((\<forall>h \<in> set (headers r). named ''Retry-After'' h \<longrightarrow> py_float e (snd h) = None)
             \<and> sleep_s = Finite (BACKOFF_BASE ^ (attempt + 1)))"
  shows "(sleep_check e sleep_s = Inr d \<longrightarrow>
            fetch_page_loop e s url params attempt w
              = fetch_page_loop e s url params (attempt + 1)
                  ((announced url params (attempt + 1) r sleep_s w)\<lparr>slept := slept w @ [d]\<rparr>)
            \<and> (\<exists>ds. slept (final_world (fetch_page_loop e s url params attempt w)) = slept w @ d # ds))
       \<and> (sleep_check e sleep_s = Inl x \<longrightarrow>
            fetch_page_loop e s url params attempt w
              = Raises x (announced url params (attempt + 1) r sleep_s w))"
proof -
  have rd: "retry_delay e (attempt + 1) r = sleep_s"
    using assms(5)
  proof (elim disjE bexE conjE)
    fix h assume h: "h \<in> set (headers r)" "named ''Retry-After'' h" "py_float e (snd h) = Some sleep_s"
    have "headers_get (headers r) ''Retry-After'' = Some (snd h)"
      using assms(4) h(1,2) by (rule headers_get_named)
    then show ?thesis using h(3) by (simp add: retry_delay_def)
  next
    assume n: "\<forall>h \<in> set (headers r). named ''Retry-After'' h \<longrightarrow> py_float e (snd h) = None"
      and b: "sleep_s = Finite (BACKOFF_BASE ^ (attempt + 1))"
    show ?thesis
    proof (cases "headers_get (headers r) ''Retry-After''")
      case None
      then show ?thesis using b by (simp add: retry_delay_def)
    next
      case (Some v)
      then obtain h where "h \<in> set (headers r)" "named ''Retry-After'' h" "snd h = v"
        using headers_get_found by blast
      then have "py_float e v = None" using n by auto
      then show ?thesis using Some b by (simp add: retry_delay_def)
    qed
  qed
  let ?w2 = "announced url params (attempt + 1) r sleep_s w"
  have w2: "print (retry_line (GetReturns r) (attempt + 1) sleep_s)
      (w\<lparr>script := rest, requests := requests w @ [(url, params)]\<rparr>) = ?w2"
    using assms(1) by (simp add: announced_def retry_line_def print_def)
  have "failing (GetReturns r)" using assms(2) by (simp add: failing_def)
  note f0 = fetch_attempt_failing [OF assms(1) this, of e s url params attempt]
  have ps: "planned_sleep e (attempt + 1) (GetReturns r) = sleep_s"
    using rd by (simp add: planned_sleep_def)
  have le: "\<not> attempt + 1 > MAX_RETRIES"
    using assms(3) by simp
  have fa: "fetch_attempt e s url params attempt w =
      (case sleep_check e sleep_s of
         Inl err \<Rightarrow> Finished (Raises err ?w2)
       | Inr d \<Rightarrow> Again (attempt + 1) (?w2\<lparr>slept := slept w @ [d]\<rparr>))"
    unfolding f0 ps w2 using le by (simp only: if_False)
  show ?thesis
  proof (intro conjI impI)
    assume ok: "sleep_check e sleep_s = Inr d"
    let ?w3 = "?w2\<lparr>slept := slept w @ [d]\<rparr>"
    from fa ok show eq: "fetch_page_loop e s url params attempt w
        = fetch_page_loop e s url params (attempt + 1) ?w3"
      by (simp add: fetch_page_loop.simps [of e s url params attempt w])
    obtain ds where "slept (final_world (fetch_page_loop e s url params (attempt + 1) ?w3)) = slept ?w3 @ ds"
      using fetch_page_loop_slept by blast
    then have "slept (final_world (fetch_page_loop e s url params attempt w)) = slept w @ d # ds"
      by (simp add: eq)
    then show "\<exists>ds. slept (final_world (fetch_page_loop e s url params attempt w)) = slept w @ d # ds"
      by blast
  next
    assume "sleep_check e sleep_s = Inl x"
    with fa show "fetch_page_loop e s url params attempt w = Raises x ?w2"
      by (simp add: fetch_page_loop.simps [of e s url params attempt w])
  qed
qed

theorem retry_after_sets_the_sleep_witness:
  "retryable 429 \<and> one_entry_per_name (busy_headers ''2'')
   \<and> (\<exists>ds. slept (final_world (fetch_page_loop float_env [] (JStr BASE_URL) None 0
        (start_world [too_many_requests (busy_headers ''2''), page (JObj [])]))) = 2 # ds)
   \<and> (\<exists>ds. slept (final_world (fetch_page_loop float_env [] (JStr BASE_URL) None 0
        (start_world [too_many_requests (busy_headers ''soon''), page (JObj [])]))) = 3 / 2 # ds)
   \<and> fetch_page_loop float_env [] (JStr BASE_URL) None 0
        (start_world [too_many_requests (busy_headers ''10000000000''), page (JObj [])])
      = Raises OverflowError
          \<lparr>script = [page (JObj [])], requests = [(JStr BASE_URL, None)], slept = [],
           stdout = [HttpRetry 429 1 (Finite 10000000000)], stderr = [], out_file = []\<rparr>"
proof -
  let ?r = "\<lambda>v. \<lparr>status_code = 429, headers = busy_headers v, json_body = None\<rparr>"
  let ?w = "\<lambda>v. start_world [too_many_requests (busy_headers v), page (JObj [])]"
  let ?h = "\<lambda>v. (''retry-after'', v)"
  have a: "script (?w v) = GetReturns (?r v) # [page (JObj [])]" for v
    by (simp add: start_world_def too_many_requests_def)
  have b: "retryable (status_code (?r v))" for v by (simp add: retryable_def)
  have b': "retryable 429" by (simp add: retryable_def)
  have c: "0 + 1 \<le> MAX_RETRIES" by (simp add: MAX_RETRIES_def)
  have o: "one_entry_per_name (headers (?r v))" for v
    unfolding one_entry_per_name_def busy_headers_def by code_simp
  have o2: "one_entry_per_name (busy_headers ''2'')" by code_simp
  have sl: "slept (?w v) = []" for v by (simp add: start_world_def)
  have m: "?h v \<in> set (headers (?r v))" for v by (simp add: busy_headers_def)
  have n: "named ''Retry-After'' (?h v)" for v
    unfolding named_def fst_conv by code_simp
  have only: "named ''Retry-After'' h \<Longrightarrow> h \<in> set (headers (?r v)) \<Longrightarrow> h = ?h v" for h v
    by (auto simp: busy_headers_def named_def lower_chr_def)
  have f2: "py_float float_env (snd (?h ''2'')) = Some (Finite 2)" by code_simp
  have c2: "sleep_check float_env (Finite 2) = Inr 2" by code_simp
  have h2: "(\<exists>h \<in> set (headers (?r ''2'')). named ''Retry-After'' h \<and> py_float float_env (snd h) = Some (Finite 2))
      \<or> ((\<forall>h \<in> set (headers (?r ''2'')). named ''Retry-After'' h \<longrightarrow> py_float float_env (snd h) = None)
          \<and> Finite 2 = Finite (BACKOFF_BASE ^ (0 + 1)))"
    using m [of "''2''"] n [of "''2''"] f2 by blast
  from retry_after_sets_the_sleep [OF a b c o h2, of 2 "[]" "JStr BASE_URL" None] c2
  have "\<exists>ds. slept (final_world (fetch_page_loop float_env [] (JStr BASE_URL) None 0 (?w ''2'')))
      = slept (?w ''2'') @ 2 # ds"
    by blast
  then have r2: "\<exists>ds. slept (final_world (fetch_page_loop float_env [] (JStr BASE_URL) None 0 (?w ''2''))) = 2 # ds"
    unfolding sl by simp
  have fs: "py_float float_env (snd (?h ''soon'')) = None" by code_simp
  have cs: "sleep_check float_env (Finite (BACKOFF_BASE ^ (0 + 1))) = Inr (3 / 2)" by code_simp
  have hs: "(\<exists>h \<in> set (headers (?r ''soon'')). named ''Retry-After'' h
        \<and> py_float float_env (snd h) = Some (Finite (BACKOFF_BASE ^ (0 + 1))))
      \<or> ((\<forall>h \<in> set (headers (?r ''soon'')). named ''Retry-After'' h \<longrightarrow> py_float float_env (snd h) = None)
          \<and> Finite (BACKOFF_BASE ^ (0 + 1)) = Finite (BACKOFF_BASE ^ (0 + 1)))"
    using only [of _ "''soon''"] fs by blast
  from retry_after_sets_the_sleep [OF a b c o hs, of "3 / 2" "[]" "JStr BASE_URL" None] cs
  have "\<exists>ds. slept (final_world (fetch_page_loop float_env [] (JStr BASE_URL) None 0 (?w ''soon'')))
      = slept (?w ''soon'') @ 3 / 2 # ds"
    by blast
  then have rs: "\<exists>ds. slept (final_world (fetch_page_loop float_env [] (JStr BASE_URL) None 0 (?w ''soon''))) = 3 / 2 # ds"
    unfolding sl by simp
  have fb: "py_float float_env (snd (?h ''10000000000'')) = Some (Finite 10000000000)" by code_simp
  have cb: "sleep_check float_env (Finite 10000000000) = Inl OverflowError" by code_simp
  have hb: "(\<exists>h \<in> set (headers (?r ''10000000000'')). named ''Retry-After'' h
        \<and> py_float float_env (snd h) = Some (Finite 10000000000))
      \<or> ((\<forall>h \<in> set (headers (?r ''10000000000'')). named ''Retry-After'' h \<longrightarrow> py_float float_env (snd h) = None)
          \<and> Finite 10000000000 = Finite (BACKOFF_BASE ^ (0 + 1)))"
    using m [of "''10000000000''"] n [of "''10000000000''"] fb by blast
  have an: "announced (JStr BASE_URL) None (0 + 1) (?r ''10000000000'') (Finite 10000000000) (?w ''10000000000'')
      = \<lparr>script = [page (JObj [])], requests = [(JStr BASE_URL, None)], slept = [],
         stdout = [HttpRetry 429 1 (Finite 10000000000)], stderr = [], out_file = []\<rparr>"
    by (simp add: announced_def start_world_def)
  from retry_after_sets_the_sleep [OF a b c o hb, of _ "[]" "JStr BASE_URL" None OverflowError] cb
  have "fetch_page_loop float_env [] (JStr BASE_URL) None 0 (?w ''10000000000'')
      = Raises OverflowError (announced (JStr BASE_URL) None (0 + 1) (?r ''10000000000'')
          (Finite 10000000000) (?w ''10000000000''))"
    by blast
  then have rb: "fetch_page_loop float_env [] (JStr BASE_URL) None 0 (?w ''10000000000'')
      = Raises OverflowError
          \<lparr>script = [page (JObj [])], requests = [(JStr BASE_URL, None)], slept = [],
           stdout = [HttpRetry 429 1 (Finite 10000000000)], stderr = [], out_file = []\<rparr>"
    unfolding an .
  from b' o2 r2 rs rb show ?thesis by blast
qed

theorem negative_retry_after_is_not_slept:
  "retryable 429
   \<and> headers_get [(''Retry-After'', ''-1'')] ''Retry-After'' = Some ''-1''
   \<and> py_float float_env ''-1'' = Some (Finite (- 1))
   \<and> fetch_page float_env [] (JStr BASE_URL) None
        (start_world [too_many_requests [(''Retry-After'', ''-1'')], page (JObj [])])
      = Raises ValueError
          \<lparr>script = [page (JObj [])], requests = [(JStr BASE_URL, None)], slept = [],
           stdout = [HttpRetry 429 1 (Finite (- 1))], stderr = [], out_file = []\<rparr>"
  by code_simp

lemma map_upt_shift: "map f [0..<Suc k] = f 0 # map (\<lambda>i. f (Suc i)) [0..<k]"
  by (simp add: upt_rec [of 0 "Suc k"] map_Suc_upt [symmetric] del: upt_Suc)

lemma sleep_check_backoff:
  assumes "a \<le> MAX_RETRIES" and "BACKOFF_BASE ^ MAX_RETRIES \<le> sleep_max e"
  shows "sleep_check e (Finite (BACKOFF_BASE ^ a)) = Inr (BACKOFF_BASE ^ a)"
proof -
  have le: "BACKOFF_BASE ^ a \<le> BACKOFF_BASE ^ MAX_RETRIES"
    using assms(1) by (intro power_increasing) (simp_all add: BACKOFF_BASE_def)
  have top: "BACKOFF_BASE ^ MAX_RETRIES = 243 / 32"
    by (simp add: BACKOFF_BASE_def MAX_RETRIES_def power_divide)
  have nn: "0 \<le> BACKOFF_BASE ^ a"
    by (rule backoff_nonneg)
  have "BACKOFF_BASE ^ a * 10 ^ 9 \<le> 243 / 32 * 10 ^ 9"
    using le unfolding top by (intro mult_right_mono) simp_all
  moreover have "0 \<le> BACKOFF_BASE ^ a * 10 ^ 9"
    using nn by simp
  ultimately have "\<not> ns_overflows (BACKOFF_BASE ^ a)"
    unfolding ns_overflows_def by simp
  then have no: "ns_overflows (BACKOFF_BASE ^ a) = False"
    by simp
  have n1: "(BACKOFF_BASE ^ a < 0) = False"
    using nn by (simp only: not_less [symmetric] simp_thms)
  have "BACKOFF_BASE ^ a \<le> sleep_max e"
    using le assms(2) by (rule order_trans)
  then have n2: "(sleep_max e < BACKOFF_BASE ^ a) = False"
    by (simp only: not_less [symmetric] simp_thms)
  show ?thesis
    unfolding sleep_check_def pyfloat.case no n1 n2 by (simp only: if_False)
qed

lemma fetch_page_loop_all_fail:
  "attempt + n = MAX_RETRIES \<Longrightarrow> n < length (script w) \<Longrightarrow> list_all failing (take (Suc n) (script w))
    \<Longrightarrow> \<exists>x w' ds. fetch_page_loop e s url params attempt w = Raises x w' \<and> length ds \<le> n
          \<and> slept w' = slept w @ ds
          \<and> map (\<lambda>i. sleep_check e (planned_sleep e (attempt + i + 1) (script w ! i))) [0..<length ds]
              = map Inr ds
          \<and> length (requests w') = length (requests w) + length ds + 1
          \<and> (if length ds < n
              then sleep_check e (planned_sleep e (attempt + length ds + 1) (script w ! length ds)) = Inl x
              else x = last_error (script w ! n))"
proof (induction n arbitrary: attempt w)
  case 0
  obtain a rest where sc: "script w = a # rest"
    using "0.prems"(2) by (cases "script w") auto
  have f: "failing a" using "0.prems"(3) sc by simp
  have "fetch_attempt e s url params attempt w
      = Finished (Raises (last_error a) (w\<lparr>script := rest, requests := requests w @ [(url, params)]\<rparr>))"
    using fetch_attempt_failing [OF sc f, of e s url params attempt] "0.prems"(1) by simp
  then have "fetch_page_loop e s url params attempt w
      = Raises (last_error a) (w\<lparr>script := rest, requests := requests w @ [(url, params)]\<rparr>)"
    by (simp add: fetch_page_loop.simps [of e s url params attempt w])
  then show ?case
    by (intro exI [of _ "last_error a"] exI [of _ "w\<lparr>script := rest, requests := requests w @ [(url, params)]\<rparr>"]
          exI [of _ "[]"]) (simp add: sc)
next
  case (Suc n)
  obtain a rest where sc: "script w = a # rest"
    using Suc.prems(2) by (cases "script w") auto
  have f: "failing a" using Suc.prems(3) sc by simp
  let ?p = "planned_sleep e (attempt + 1) a"
  let ?w2 = "print (retry_line a (attempt + 1) ?p) (w\<lparr>script := rest, requests := requests w @ [(url, params)]\<rparr>)"
  have le: "\<not> attempt + 1 > MAX_RETRIES" using Suc.prems(1) by simp
  note fa = fetch_attempt_failing [OF sc f, of e s url params attempt]
  show ?case
  proof (cases "sleep_check e ?p")
    case (Inl err)
    then have "fetch_page_loop e s url params attempt w = Raises err ?w2"
      using fa le by (simp add: fetch_page_loop.simps [of e s url params attempt w])
    then show ?thesis
      using Inl
      by (intro exI [of _ err] exI [of _ ?w2] exI [of _ "[]"]) (simp add: sc print_def)
  next
    case (Inr d)
    let ?w3 = "?w2\<lparr>slept := slept w @ [d]\<rparr>"
    have eq: "fetch_page_loop e s url params attempt w = fetch_page_loop e s url params (attempt + 1) ?w3"
      using fa le Inr by (simp add: fetch_page_loop.simps [of e s url params attempt w])
    have sc3: "script ?w3 = rest" by (simp add: print_def)
    have "\<exists>x w' ds. fetch_page_loop e s url params (attempt + 1) ?w3 = Raises x w' \<and> length ds \<le> n
          \<and> slept w' = slept ?w3 @ ds
          \<and> map (\<lambda>i. sleep_check e (planned_sleep e (attempt + 1 + i + 1) (script ?w3 ! i))) [0..<length ds]
              = map Inr ds
          \<and> length (requests w') = length (requests ?w3) + length ds + 1
          \<and> (if length ds < n
              then sleep_check e (planned_sleep e (attempt + 1 + length ds + 1) (script ?w3 ! length ds)) = Inl x
              else x = last_error (script ?w3 ! n))"
      using Suc.prems sc by (intro Suc.IH) (simp_all add: print_def)
    then obtain x w' ds where r: "fetch_page_loop e s url params (attempt + 1) ?w3 = Raises x w'"
      "length ds \<le> n"
      "slept w' = slept ?w3 @ ds"
      "map (\<lambda>i. sleep_check e (planned_sleep e (attempt + 1 + i + 1) (rest ! i))) [0..<length ds] = map Inr ds"
      "length (requests w') = length (requests ?w3) + length ds + 1"
      "if length ds < n
       then sleep_check e (planned_sleep e (attempt + 1 + length ds + 1) (rest ! length ds)) = Inl x
       else x = last_error (rest ! n)"
      unfolding sc3 by blast
    have sl: "slept w' = slept w @ d # ds"
      using r(3) by (simp add: print_def)
    have ch: "map (\<lambda>i. sleep_check e (planned_sleep e (attempt + i + 1) (script w ! i))) [0..<length (d # ds)]
        = map Inr (d # ds)"
      using r(4) Inr by (simp add: map_upt_shift sc del: upt_Suc)
    have rq: "length (requests w') = length (requests w) + length (d # ds) + 1"
      using r(5) by (simp add: print_def)
    have fin: "if length (d # ds) < Suc n
        then sleep_check e (planned_sleep e (attempt + length (d # ds) + 1) (script w ! length (d # ds))) = Inl x
        else x = last_error (script w ! Suc n)"
      using r(6) by (auto simp: sc split: if_splits)
    have len: "length (d # ds) \<le> Suc n" using r(2) by simp
    show ?thesis
      unfolding eq using r(1) len sl ch rq fin
      by (intro exI [of _ x] exI [of _ w'] exI [of _ "d # ds"] conjI)
  qed
qed

text \<open>
  Claim C6, as amended: when the first \<open>MAX_RETRIES + 1\<close> answers all fail (each a
  request exception or a response with a retryable status), \<^verbatim>\<open>fetch_page\<close> raises after
  at most \<open>MAX_RETRIES\<close> retries, having called \<^verbatim>\<open>session.get\<close> once more than it
  retried: it never waits for a further answer. The duration planned before retry
  number \<open>a\<close> is \<open>BACKOFF_BASE ^ a\<close> after a request exception and after a retryable
  response without a readable \<^verbatim>\<open>Retry-After\<close>; after a retryable response with one it
  is the value of that header. The durations slept are the planned ones, as long as
  \<^verbatim>\<open>time.sleep\<close> accepts them; the first one that it refuses (a negative value, not a
  number, a value beyond its range) ends the function at once with the exception of
  \<^verbatim>\<open>time.sleep\<close>; when it accepts them all there are exactly \<open>MAX_RETRIES\<close> retries
  and the error of the last attempt is raised. In particular, when every planned
  duration is the backoff, and the platform can sleep the longest of them, the
  durations slept are \<open>BACKOFF_BASE ^ 1\<close> to \<open>BACKOFF_BASE ^ MAX_RETRIES\<close>. The claim
  as stated fails on retryable responses that carry a numeric \<^verbatim>\<open>Retry-After\<close>.
\<close>

theorem fetch_page_gives_up:
  assumes "MAX_RETRIES < length (script w)"
    and "list_all failing (take (MAX_RETRIES + 1) (script w))"
  shows "\<exists>x w' ds. fetch_page e s url params w = Raises x w' \<and> length ds \<le> MAX_RETRIES
      \<and> length (requests w') = length (requests w) + length ds + 1
      \<and> slept w' = slept w @ ds
      \<and> map (\<lambda>i. sleep_check e (planned_sleep e (i + 1) (script w ! i))) [0..<length ds] = map Inr ds
      \<and> (if length ds < MAX_RETRIES
          then sleep_check e (planned_sleep e (length ds + 1) (script w ! length ds)) = Inl x
          else x = last_error (script w ! MAX_RETRIES))
      \<and> (BACKOFF_BASE ^ MAX_RETRIES \<le> sleep_max e
          \<and> (\<forall>i<MAX_RETRIES. planned_sleep e (i + 1) (script w ! i) = Finite (BACKOFF_BASE ^ (i + 1)))
         \<longrightarrow> ds = map (\<lambda>i. BACKOFF_BASE ^ (i + 1)) [0..<MAX_RETRIES]
             \<and> x = last_error (script w ! MAX_RETRIES))"
proof -
  have "\<exists>x w' ds. fetch_page_loop e s url params 0 w = Raises x w' \<and> length ds \<le> MAX_RETRIES
          \<and> slept w' = slept w @ ds
          \<and> map (\<lambda>i. sleep_check e (planned_sleep e (0 + i + 1) (script w ! i))) [0..<length ds]
              = map Inr ds
          \<and> length (requests w') = length (requests w) + length ds + 1
          \<and> (if length ds < MAX_RETRIES
              then sleep_check e (planned_sleep e (0 + length ds + 1) (script w ! length ds)) = Inl x
              else x = last_error (script w ! MAX_RETRIES))"
    using assms by (intro fetch_page_loop_all_fail) simp_all
  then obtain x w' ds where r: "fetch_page e s url params w = Raises x w'" "length ds \<le> MAX_RETRIES"
    "slept w' = slept w @ ds"
    "map (\<lambda>i. sleep_check e (planned_sleep e (i + 1) (script w ! i))) [0..<length ds] = map Inr ds"
    "length (requests w') = length (requests w) + length ds + 1"
    "if length ds < MAX_RETRIES
     then sleep_check e (planned_sleep e (length ds + 1) (script w ! length ds)) = Inl x
     else x = last_error (script w ! MAX_RETRIES)"
    unfolding fetch_page_def add_0 by blast
  have nth: "sleep_check e (planned_sleep e (i + 1) (script w ! i)) = Inr (ds ! i)" if "i < length ds" for i
  proof -
    have "map (\<lambda>i. sleep_check e (planned_sleep e (i + 1) (script w ! i))) [0..<length ds] ! i = map Inr ds ! i"
      using r(4) by simp
    then show ?thesis using that by simp
  qed
  have backoff: "ds = map (\<lambda>i. BACKOFF_BASE ^ (i + 1)) [0..<MAX_RETRIES] \<and> x = last_error (script w ! MAX_RETRIES)"
    if sm: "BACKOFF_BASE ^ MAX_RETRIES \<le> sleep_max e"
      and pl: "\<forall>i<MAX_RETRIES. planned_sleep e (i + 1) (script w ! i) = Finite (BACKOFF_BASE ^ (i + 1))"
  proof -
    have acc: "sleep_check e (planned_sleep e (i + 1) (script w ! i)) = Inr (BACKOFF_BASE ^ (i + 1))"
      if "i < MAX_RETRIES" for i
      using that pl sleep_check_backoff [of "i + 1" e] sm by simp
    have full: "length ds = MAX_RETRIES"
    proof (rule ccontr)
      assume "length ds \<noteq> MAX_RETRIES"
      then have lt: "length ds < MAX_RETRIES" using r(2) by simp
      then have "sleep_check e (planned_sleep e (length ds + 1) (script w ! length ds)) = Inl x"
        using r(6) by simp
      then show False using acc [OF lt] by simp
    qed
    have "ds ! i = BACKOFF_BASE ^ (i + 1)" if "i < MAX_RETRIES" for i
      using nth [of i] acc [OF that] that full by simp
    then have "ds = map (\<lambda>i. BACKOFF_BASE ^ (i + 1)) [0..<MAX_RETRIES]"
      using full by (intro nth_equalityI) simp_all
    moreover have "x = last_error (script w ! MAX_RETRIES)"
      using r(6) full by simp
    ultimately show ?thesis by blast
  qed
  show ?thesis
    using r backoff by (intro exI [of _ x] exI [of _ w'] exI [of _ ds]) blast
qed

theorem fetch_page_gives_up_witness:
  "MAX_RETRIES < length (script (start_world six_timeouts))
   \<and> list_all failing (take (MAX_RETRIES + 1) (script (start_world six_timeouts)))
   \<and> BACKOFF_BASE ^ MAX_RETRIES \<le> sleep_max default_env
   \<and> fetch_page default_env [] (JStr BASE_URL) None (start_world six_timeouts)
       = Raises RequestException (final_world (fetch_page default_env [] (JStr BASE_URL) None (start_world six_timeouts)))
   \<and> slept (final_world (fetch_page default_env [] (JStr BASE_URL) None (start_world six_timeouts)))
      = [BACKOFF_BASE ^ 1, BACKOFF_BASE ^ 2, BACKOFF_BASE ^ 3, BACKOFF_BASE ^ 4, BACKOFF_BASE ^ 5]
   \<and> length (requests (final_world (fetch_page default_env [] (JStr BASE_URL) None (start_world six_timeouts)))) = 6
   \<and> list_all failing six_overlong
   \<and> fetch_page float_env [] (JStr BASE_URL) None (start_world six_overlong)
       = Raises OverflowError
           \<lparr>script = replicate 5 (too_many_requests [(''Retry-After'', ''10000000000'')]),
            requests = [(JStr BASE_URL, None)], slept = [],
            stdout = [HttpRetry 429 1 (Finite 10000000000)], stderr = [], out_file = []\<rparr>"
proof -
  let ?w = "start_world six_timeouts"
  let ?f = "fetch_page default_env [] (JStr BASE_URL) None ?w"
  have a: "MAX_RETRIES < length (script ?w)" by code_simp
  have b: "list_all failing (take (MAX_RETRIES + 1) (script ?w))" by code_simp
  have c: "BACKOFF_BASE ^ MAX_RETRIES \<le> sleep_max default_env" by code_simp
  have d: "\<forall>i<MAX_RETRIES. planned_sleep default_env (i + 1) (script ?w ! i) = Finite (BACKOFF_BASE ^ (i + 1))"
    by (simp add: planned_sleep_def start_world_def six_timeouts_def MAX_RETRIES_def)
  have sw: "slept ?w = []" "requests ?w = []" by (simp_all add: start_world_def)
  have le: "last_error (script ?w ! MAX_RETRIES) = RequestException" by code_simp
  have m: "map (\<lambda>i. BACKOFF_BASE ^ (i + 1)) [0..<MAX_RETRIES]
      = [BACKOFF_BASE ^ 1, BACKOFF_BASE ^ 2, BACKOFF_BASE ^ 3, BACKOFF_BASE ^ 4, BACKOFF_BASE ^ 5]"
    by code_simp
  from fetch_page_gives_up [OF a b, of default_env "[]" "JStr BASE_URL" None] c d
  obtain x w' ds where r: "?f = Raises x w'" "slept w' = slept ?w @ ds"
    "length (requests w') = length (requests ?w) + length ds + 1"
    "ds = map (\<lambda>i. BACKOFF_BASE ^ (i + 1)) [0..<MAX_RETRIES]" "x = last_error (script ?w ! MAX_RETRIES)"
    by blast
  have fw: "final_world ?f = w'" by (simp add: r(1) final_world_def)
  have "?f = Raises RequestException (final_world ?f)"
    unfolding fw using r(1,5) le by simp
  moreover have "slept (final_world ?f)
      = [BACKOFF_BASE ^ 1, BACKOFF_BASE ^ 2, BACKOFF_BASE ^ 3, BACKOFF_BASE ^ 4, BACKOFF_BASE ^ 5]"
    unfolding fw r(2) sw r(4) m by simp
  moreover have "length (requests (final_world ?f)) = 6"
    unfolding fw r(3) sw r(4) by (simp add: MAX_RETRIES_def)
  moreover have "list_all failing six_overlong" by code_simp
  moreover have "fetch_page float_env [] (JStr BASE_URL) None (start_world six_overlong)
       = Raises OverflowError
           \<lparr>script = replicate 5 (too_many_requests [(''Retry-After'', ''10000000000'')]),
            requests = [(JStr BASE_URL, None)], slept = [],
            stdout = [HttpRetry 429 1 (Finite 10000000000)], stderr = [], out_file = []\<rparr>"
    by code_simp
  ultimately show ?thesis using a b c by blast
qed

theorem retry_after_replaces_the_backoff:
  "list_all failing six_throttled
   \<and> raised (fetch_page float_env [] (JStr BASE_URL) None (start_world six_throttled))
   \<and> slept (final_world (fetch_page float_env [] (JStr BASE_URL) None (start_world six_throttled)))
      = [2, 2, 2, 2, 2]
   \<and> [BACKOFF_BASE ^ 1, BACKOFF_BASE ^ 2, BACKOFF_BASE ^ 3, BACKOFF_BASE ^ 4, BACKOFF_BASE ^ 5]
      = [3 / 2, 9 / 4, 27 / 8, 81 / 16, 243 / 32]"
  by code_simp

section \<open>Exit statuses\<close>














section \<open>The reformat step\<close>

text \<open>
  Claim C9: when the reformat step is enabled and any part of it fails, the failure is
  caught, a warning is logged, the exit status is unaffected and the compact file
  written before is left untouched. The code keeps the first three and breaks the
  last when the rewriting fails: \<^verbatim>\<open>open(out_path, "w")\<close> has emptied the file before
  \<^verbatim>\<open>json.dump\<close> writes. Here the write fails before anything reaches the file: the
  warning is printed (its text says that the compact output is kept), the run exits
  with status 0, and the file that held the compact array is empty. The last line
  shows what the step leaves when nothing fails.
\<close>

theorem failed_rewrite_loses_the_compact_file:
  "\<not> COMPACT_OUTPUT (pretty_env (DumpFailsAfter 0))
   \<and> out_file (final_world (stream_block (pretty_env (DumpFailsAfter 0)) []
        (start_world [page (JObj [(''items'', JArr [JInt 1])])])))
       = [CHR ''['', CHR 0x0A, CHR ''1'', CHR 0x0A, CHR '']'', CHR 0x0A]
   \<and> exit_status (main (pretty_env (DumpFailsAfter 0))
        (start_world [page (JObj [(''items'', JArr [JInt 1])])])) = Some 0
   \<and> stdout (final_world (main (pretty_env (DumpFailsAfter 0))
        (start_world [page (JObj [(''items'', JArr [JInt 1])])])))
       = [Start 200 ''vulnerable_devices_20250101_0000.json'', PageProgress 1 1 1,
          Done 1 1 (JStr ''n/a''), Reformatting, CouldNotReformat,
          Wrote ''vulnerable_devices_20250101_0000.json'']
   \<and> out_file (final_world (main (pretty_env (DumpFailsAfter 0))
        (start_world [page (JObj [(''items'', JArr [JInt 1])])]))) = []
   \<and> out_file (final_world (main (pretty_env NoFault)
        (start_world [page (JObj [(''items'', JArr [JInt 1])])])))
       = [CHR ''['', CHR 0x0A, CHR '' '', CHR '' '', CHR ''1'', CHR 0x0A, CHR '']'']"
  by code_simp

end
